theory Spec2Isabelle
  imports Main
begin

section \<open>RaiiObjectPool: a shallow embedding of RaiiObjectPool.hpp\<close>

text \<open>
  The pool of \<^verbatim>\<open>RaiiObjectPool.hpp\<close> hands out \<^verbatim>\<open>std::unique_ptr<T, ReturnToPoolDeleter>\<close>
  values whose deleter returns the object to the pool. The embedding is sequential: one
  thread, every member function one atomic step (each of them holds \<^verbatim>\<open>_mutex\<close> for its
  whole body).

  \<^item> A \<^verbatim>\<open>T*\<close> is \<open>obj option\<close>: \<open>None\<close> is \<^verbatim>\<open>nullptr\<close>, \<open>Some a\<close> the instance at address \<open>a\<close>.
  \<^item> A \<^verbatim>\<open>std::weak_ptr<RaiiObjectPool<T>>\<close> is \<open>pool_id option\<close>: \<open>None\<close> is the empty weak
    pointer, \<open>Some i\<close> refers to pool \<open>i\<close>; it resolves (\<^verbatim>\<open>lock()\<close>) while pool \<open>i\<close> is in
    the world's table of live pools.
  \<^item> The \<^verbatim>\<open>size_t\<close> members are \<open>nat\<close> with the wrap-around written out, for a \<^verbatim>\<open>size_t\<close> of
    64 bits: a value of \<^verbatim>\<open>size_t\<close> is a \<open>nat\<close> up to \<open>SIZE_MAX\<close>, and the only arithmetic on
    them, \<^verbatim>\<open>++_allocated\<close>, takes \<open>SIZE_MAX\<close> to 0. With a limit set the increment runs under
    the guard \<^verbatim>\<open>_allocated < _limit\<close> and never wraps; without a limit nothing guards it.
  \<^item> The factory is an opaque callback \<^verbatim>\<open>std::function<T* ()>\<close>. Its behaviour is given by
    the outcome of its \<open>k\<close>-th invocation, \<open>m_factory p k\<close>. \<open>invoke_factory\<close> is the call
    \<^verbatim>\<open>_factory()\<close>: it yields the outcome of the next invocation and counts the invocation in
    the ghost field \<open>factory_calls\<close>, an unbounded \<open>nat\<close> that no code of the pool reads or
    writes. The factory does not touch the pool.
  \<^item> \<^verbatim>\<open>delete\<close> and the calls of \<^verbatim>\<open>add\<close> are recorded in the world's ghost \<open>trace\<close>.
\<close>

subsection \<open>Data\<close>

type_synonym obj = nat
type_synonym T_ptr = "obj option"
type_synonym pool_id = nat

datatype factory_outcome = Returns T_ptr | Throws

datatype exn = FactoryFailure | bad_alloc

record ReturnToPoolDeleter =
  ptrToOwnerPool :: "pool_id option"

record UniquePtrToObject =
  ptr :: T_ptr
  get_deleter :: ReturnToPoolDeleter

record RaiiObjectPool =
  m_limit :: nat
  m_allocated :: nat
  m_factory :: "nat \<Rightarrow> factory_outcome"
  factory_calls :: nat
  m_poolContainer :: "UniquePtrToObject list"

datatype event = AddCalled pool_id obj | Deleted obj

record world =
  pools :: "pool_id \<Rightarrow> RaiiObjectPool option"
  trace :: "event list"

subsection \<open>RaiiObjectPool\<close>

definition Unlimited :: nat where
  "Unlimited = 0"

text \<open>The largest value of \<^verbatim>\<open>size_t\<close>, and \<^verbatim>\<open>++\<close> on a \<^verbatim>\<open>size_t\<close>.\<close>

definition SIZE_MAX :: nat where
  "SIZE_MAX = 2 ^ 64 - 1"

definition size_t_inc :: "nat \<Rightarrow> nat" where
  "size_t_inc x = (x + 1) mod (SIZE_MAX + 1)"

text \<open>\<^verbatim>\<open>create\<close> and the constructor: the limit, no allocation, an empty stack.\<close>

definition create :: "(nat \<Rightarrow> factory_outcome) \<Rightarrow> nat \<Rightarrow> RaiiObjectPool" where
  "create factory lim =
     \<lparr>m_limit = lim, m_allocated = 0, m_factory = factory, factory_calls = 0,
      m_poolContainer = []\<rparr>"

definition limit :: "RaiiObjectPool \<Rightarrow> nat" where
  "limit p = m_limit p"

definition allocated :: "RaiiObjectPool \<Rightarrow> nat" where
  "allocated p = m_allocated p"

definition pooled :: "RaiiObjectPool \<Rightarrow> nat" where
  "pooled p = length (m_poolContainer p)"

definition ReturnToPoolDeleter_ctor :: "pool_id option \<Rightarrow> ReturnToPoolDeleter" where
  "ReturnToPoolDeleter_ctor ptrToOwnerPool' = \<lparr>ptrToOwnerPool = ptrToOwnerPool'\<rparr>"

definition detachFromPool :: "ReturnToPoolDeleter \<Rightarrow> ReturnToPoolDeleter" where
  "detachFromPool d = d\<lparr>ptrToOwnerPool := None\<rparr>"

text \<open>The call \<^verbatim>\<open>_factory()\<close>: the outcome of the next invocation, and the invocation counted.\<close>

definition invoke_factory :: "RaiiObjectPool \<Rightarrow> factory_outcome \<times> RaiiObjectPool" where
  "invoke_factory p = (m_factory p (factory_calls p), p\<lparr>factory_calls := factory_calls p + 1\<rparr>)"

text \<open>
  \<^verbatim>\<open>acquire\<close>, called on the pool with identity \<open>self\<close> (\<^verbatim>\<open>shared_from_this()\<close>). The stack is
  a list with its top at the head. In the second branch \<^verbatim>\<open>++_allocated\<close> is a statement of
  its own before the \<^verbatim>\<open>return\<close> that calls \<^verbatim>\<open>_factory()\<close>: the factory is invoked on the pool
  with the counter incremented already, and that is the pool an exception of the factory
  leaves behind.
\<close>

definition acquire ::
  "pool_id \<Rightarrow> RaiiObjectPool \<Rightarrow> (exn + UniquePtrToObject) \<times> RaiiObjectPool" where
  "acquire self p =
     (case m_poolContainer p of
        returnPointer # rest \<Rightarrow> (Inr returnPointer, p\<lparr>m_poolContainer := rest\<rparr>)
      | [] \<Rightarrow>
          if m_limit p = Unlimited \<or> m_allocated p < m_limit p then
            (case invoke_factory (p\<lparr>m_allocated := size_t_inc (m_allocated p)\<rparr>) of
               (Returns t, p') \<Rightarrow>
                 (Inr \<lparr>ptr = t, get_deleter = ReturnToPoolDeleter_ctor (Some self)\<rparr>, p')
             | (Throws, p') \<Rightarrow> (Inl FactoryFailure, p'))
          else (Inr \<lparr>ptr = None, get_deleter = ReturnToPoolDeleter_ctor None\<rparr>, p))"

text \<open>
  \<^verbatim>\<open>add\<close>: the push onto the stack. \<^verbatim>\<open>std::stack::push\<close> may throw \<^verbatim>\<open>std::bad_alloc\<close> when the
  container has to grow; the flag says whether this push does. A push that throws has no
  effect on the container and has not moved from its argument.
\<close>

definition add :: "bool \<Rightarrow> UniquePtrToObject \<Rightarrow> RaiiObjectPool \<Rightarrow> exn + RaiiObjectPool" where
  "add throws p' pool =
     (if throws then Inl bad_alloc
      else Inr (pool\<lparr>m_poolContainer := p' # m_poolContainer pool\<rparr>))"

subsection \<open>ReturnToPoolDeleter\<close>

definition lock :: "pool_id option \<Rightarrow> world \<Rightarrow> (pool_id \<times> RaiiObjectPool) option" where
  "lock wp w =
     (case wp of
        None \<Rightarrow> None
      | Some i \<Rightarrow> (case pools w i of None \<Rightarrow> None | Some pool \<Rightarrow> Some (i, pool)))"

definition log_event :: "event \<Rightarrow> world \<Rightarrow> world" where
  "log_event e w = w\<lparr>trace := trace w @ [e]\<rparr>"

definition delete_obj :: "obj \<Rightarrow> world \<Rightarrow> world" where
  "delete_obj a w = log_event (Deleted a) w"

text \<open>
  \<^verbatim>\<open>ReturnToPoolDeleter::operator()\<close>. The first argument is the number of pushes that throw
  \<^verbatim>\<open>std::bad_alloc\<close> before one succeeds.

  \<^verbatim>\<open>add\<close> takes its \<^verbatim>\<open>UniquePtrToObject\<close> by value. When the push throws, that argument
  still owns the object, and it is destroyed while the exception unwinds to the handler
  in \<^verbatim>\<open>operator()\<close>: \<^verbatim>\<open>~unique_ptr\<close> finds a non-null pointer and runs the argument's own
  deleter, \<^verbatim>\<open>ReturnToPoolDeleter(pool)\<close>, on it. That is the inner call below; the pool
  it refers to is alive, since the local \<^verbatim>\<open>pool\<close> of the outer call still holds it. Only
  then does the handler \<^verbatim>\<open>catch(const std::bad_alloc&) { }\<close> run, and control reaches
  \<^verbatim>\<open>delete ptrToReleasedObject\<close>. The model covers every finite number of throwing pushes;
  with a push that throws every time the calls nest without bound.
\<close>

function deleter_call :: "nat \<Rightarrow> ReturnToPoolDeleter \<Rightarrow> obj \<Rightarrow> world \<Rightarrow> world" where
  "deleter_call n d ptrToReleasedObject w =
     (case lock (ptrToOwnerPool d) w of
        Some (i, pool) \<Rightarrow>
          (case add (0 < n)
                  \<lparr>ptr = Some ptrToReleasedObject,
                   get_deleter = ReturnToPoolDeleter_ctor (Some i)\<rparr> pool of
             Inr pool' \<Rightarrow>
               (log_event (AddCalled i ptrToReleasedObject) w)
                 \<lparr>pools := (pools w)(i \<mapsto> pool')\<rparr>
           | Inl e \<Rightarrow>
               delete_obj ptrToReleasedObject
                 (deleter_call (n - 1) (ReturnToPoolDeleter_ctor (Some i)) ptrToReleasedObject
                    (log_event (AddCalled i ptrToReleasedObject) w)))
      | None \<Rightarrow> delete_obj ptrToReleasedObject w)"
  by pat_completeness auto
termination
  by (relation "measure (\<lambda>(n, d, a, w). n)") (auto simp: add_def split: if_splits)

declare deleter_call.simps [simp del]

text \<open>\<^verbatim>\<open>~unique_ptr\<close>: the deleter runs only on a non-null pointer.\<close>

definition unique_ptr_dtor :: "nat \<Rightarrow> UniquePtrToObject \<Rightarrow> world \<Rightarrow> world" where
  "unique_ptr_dtor n u w =
     (case ptr u of None \<Rightarrow> w | Some a \<Rightarrow> deleter_call n (get_deleter u) a w)"

text \<open>
  \<^verbatim>\<open>~RaiiObjectPool\<close>: the loop detaches the deleter of the top entry, then \<^verbatim>\<open>pop()\<close> destroys
  the entry. The destructor runs when the last \<^verbatim>\<open>shared_ptr\<close> to the pool goes away, so from
  its first statement on no weak pointer to the pool resolves: \<open>destroy\<close> takes the pool
  out of the table of live pools before it runs the loop.
\<close>

fun dtor_loop :: "nat \<Rightarrow> UniquePtrToObject list \<Rightarrow> world \<Rightarrow> world" where
  "dtor_loop n [] w = w"
| "dtor_loop n (u # rest) w =
     dtor_loop n rest
       (unique_ptr_dtor n (u\<lparr>get_deleter := detachFromPool (get_deleter u)\<rparr>) w)"

definition destroy :: "nat \<Rightarrow> pool_id \<Rightarrow> world \<Rightarrow> world" where
  "destroy n i w =
     (case pools w i of
        None \<Rightarrow> w
      | Some pool \<Rightarrow> dtor_loop n (m_poolContainer pool) (w\<lparr>pools := (pools w)(i := None)\<rparr>))"

subsection \<open>A client of one pool\<close>

text \<open>
  A client holds the \<^verbatim>\<open>shared_ptr\<close> to the pool \<open>i\<close> and the handles it has acquired.
  \<open>Acquire\<close> calls \<^verbatim>\<open>pool->acquire()\<close> and keeps the result (nothing is kept when the call
  throws); \<open>Release k n\<close> destroys the \<open>k\<close>-th handle held, with \<open>n\<close> throwing pushes;
  \<open>Reset n\<close> drops the \<^verbatim>\<open>shared_ptr\<close>, which destroys the pool.
\<close>

datatype action = Acquire | Release nat nat | Reset nat

record system =
  sys_world :: world
  held :: "UniquePtrToObject list"

definition init :: "pool_id \<Rightarrow> (nat \<Rightarrow> factory_outcome) \<Rightarrow> nat \<Rightarrow> system" where
  "init i factory lim =
     \<lparr>sys_world = \<lparr>pools = (\<lambda>_. None)(i \<mapsto> create factory lim), trace = []\<rparr>, held = []\<rparr>"

fun step :: "pool_id \<Rightarrow> system \<Rightarrow> action \<Rightarrow> system" where
  "step i s Acquire =
     (case pools (sys_world s) i of
        None \<Rightarrow> s
      | Some pool \<Rightarrow>
          (case acquire i pool of
             (Inr u, pool') \<Rightarrow>
               \<lparr>sys_world = (sys_world s)\<lparr>pools := (pools (sys_world s))(i \<mapsto> pool')\<rparr>,
                held = held s @ [u]\<rparr>
           | (Inl e, pool') \<Rightarrow>
               s\<lparr>sys_world := (sys_world s)\<lparr>pools := (pools (sys_world s))(i \<mapsto> pool')\<rparr>\<rparr>))"
| "step i s (Release k n) =
     (if k < length (held s) then
        \<lparr>sys_world = unique_ptr_dtor n (held s ! k) (sys_world s),
         held = take k (held s) @ drop (Suc k) (held s)\<rparr>
      else s)"
| "step i s (Reset n) = s\<lparr>sys_world := destroy n i (sys_world s)\<rparr>"

definition run :: "pool_id \<Rightarrow> system \<Rightarrow> action list \<Rightarrow> system" where
  "run i s acts = foldl (step i) s acts"

subsection \<open>Scenarios and the invariant\<close>

text \<open>The pointer that the \<open>k\<close>-th invocation of the factory hands to \<^verbatim>\<open>acquire\<close> (none when it throws).\<close>

definition made_ptr :: "(nat \<Rightarrow> factory_outcome) \<Rightarrow> nat \<Rightarrow> T_ptr" where
  "made_ptr f k = (case f k of Returns t \<Rightarrow> t | Throws \<Rightarrow> None)"

text \<open>The factory keeps its contract on its first \<open>k\<close> invocations: each returns an instance
  (it neither throws nor returns \<^verbatim>\<open>nullptr\<close>).\<close>

definition constructs :: "(nat \<Rightarrow> factory_outcome) \<Rightarrow> nat \<Rightarrow> bool" where
  "constructs f k =
     list_all (\<lambda>j. case f j of Returns t \<Rightarrow> t \<noteq> None | Throws \<Rightarrow> False) [0..<k]"


text \<open>The handle that \<^verbatim>\<open>acquire\<close> builds around the result of the \<open>j\<close>-th invocation of the factory.\<close>

definition handle :: "pool_id \<Rightarrow> (nat \<Rightarrow> factory_outcome) \<Rightarrow> nat \<Rightarrow> UniquePtrToObject" where
  "handle i f j = \<lparr>ptr = made_ptr f j, get_deleter = ReturnToPoolDeleter_ctor (Some i)\<rparr>"

text \<open>A full handle whose deleter refers to pool \<open>i\<close>.\<close>

definition attached :: "pool_id \<Rightarrow> UniquePtrToObject \<Rightarrow> bool" where
  "attached i u = (ptr u \<noteq> None \<and> get_deleter u = ReturnToPoolDeleter_ctor (Some i))"

text \<open>A list of release indices for a client that holds \<open>m\<close> handles and releases them all: each
  index is below the number of handles still held.\<close>

fun valid_releases :: "nat \<Rightarrow> nat list \<Rightarrow> bool" where
  "valid_releases m [] = (m = 0)"
| "valid_releases m (k # ks) = (k < m \<and> valid_releases (m - 1) ks)"

text \<open>The releases at these indices, each with a push that succeeds.\<close>

definition releases :: "nat list \<Rightarrow> action list" where
  "releases ks = map (\<lambda>k. Release k 0) ks"

text \<open>The handles that \<open>k\<close> calls of \<^verbatim>\<open>acquire\<close> on a fresh pool give the client, when none
  of the calls is beyond the limit: one for each invocation of the factory that returns.\<close>

definition acquired :: "pool_id \<Rightarrow> (nat \<Rightarrow> factory_outcome) \<Rightarrow> nat \<Rightarrow> UniquePtrToObject list" where
  "acquired i f k =
     List.map_filter
       (\<lambda>j. case f j of
              Returns t \<Rightarrow> Some \<lparr>ptr = t, get_deleter = ReturnToPoolDeleter_ctor (Some i)\<rparr>
            | Throws \<Rightarrow> None)
       [0..<k]"

text \<open>The number of full handles that the client holds.\<close>

definition checked_out :: "system \<Rightarrow> nat" where
  "checked_out s = length (filter (\<lambda>u. ptr u \<noteq> None) (held s))"


text \<open>The invariant of the client system, used in the proofs: only pool \<open>i\<close> exists; its limit and
  factory are those it was created with; \<^verbatim>\<open>_allocated\<close> is the number of invocations of the
  factory, wrapped; the stack entries together with the full handles held by the client are
  no more than the invocations; and the invocations stay within a limit that is set and is
  a value of \<^verbatim>\<open>size_t\<close>.\<close>

definition pool_inv :: "pool_id \<Rightarrow> (nat \<Rightarrow> factory_outcome) \<Rightarrow> nat \<Rightarrow> system \<Rightarrow> bool" where
  "pool_inv i f lim s =
     ((\<forall>j. j \<noteq> i \<longrightarrow> pools (sys_world s) j = None) \<and>
      (\<forall>p. pools (sys_world s) i = Some p \<longrightarrow>
         m_limit p = lim \<and> m_factory p = f \<and>
         m_allocated p = factory_calls p mod (SIZE_MAX + 1) \<and>
         length (m_poolContainer p) + checked_out s \<le> factory_calls p \<and>
         (lim \<noteq> Unlimited \<longrightarrow> lim \<le> SIZE_MAX \<longrightarrow> factory_calls p \<le> lim)))"


section \<open>Lemmas\<close>

text \<open>What \<^verbatim>\<open>operator()\<close> does, case by case: with no owner, with an owner that is gone, with a
  live owner and a push that succeeds, and with a live owner and a push that throws.\<close>

lemma deleter_call_detached:
  "ptrToOwnerPool d = None \<Longrightarrow> deleter_call n d a w = delete_obj a w"
  by (simp add: deleter_call.simps lock_def)

lemma deleter_call_expired:
  "ptrToOwnerPool d = Some i \<Longrightarrow> pools w i = None \<Longrightarrow> deleter_call n d a w = delete_obj a w"
  by (simp add: deleter_call.simps lock_def)

lemma deleter_call_push:
  "ptrToOwnerPool d = Some i \<Longrightarrow> pools w i = Some pool \<Longrightarrow>
   deleter_call 0 d a w =
     (log_event (AddCalled i a) w)
       \<lparr>pools := (pools w)(i \<mapsto> pool\<lparr>m_poolContainer :=
          \<lparr>ptr = Some a, get_deleter = ReturnToPoolDeleter_ctor (Some i)\<rparr> # m_poolContainer pool\<rparr>)\<rparr>"
  by (simp add: deleter_call.simps lock_def add_def)

lemma deleter_call_throw:
  "ptrToOwnerPool d = Some i \<Longrightarrow> pools w i = Some pool \<Longrightarrow>
   deleter_call (Suc n) d a w =
     delete_obj a (deleter_call n (ReturnToPoolDeleter_ctor (Some i)) a
        (log_event (AddCalled i a) w))"
  by (subst deleter_call.simps) (simp add: lock_def add_def)

lemma pools_log_event [simp]: "pools (log_event e w) = pools w"
  by (simp add: log_event_def)

lemma pools_delete_obj [simp]: "pools (delete_obj a w) = pools w"
  by (simp add: delete_obj_def)

lemma trace_log_event [simp]: "trace (log_event e w) = trace w @ [e]"
  by (simp add: log_event_def)

lemma trace_delete_obj [simp]: "trace (delete_obj a w) = trace w @ [Deleted a]"
  by (simp add: delete_obj_def)

text \<open>With a live owner the object is pushed exactly once, whatever the number \<open>n\<close> of throwing
  pushes; each throwing push adds one call of \<^verbatim>\<open>add\<close> and, once its handler has run, one
  \<^verbatim>\<open>delete\<close> of the same object.\<close>

lemma deleter_call_live:
  "ptrToOwnerPool d = Some i \<Longrightarrow> pools w i = Some pool \<Longrightarrow>
   pools (deleter_call n d a w) =
     (pools w)(i \<mapsto> pool\<lparr>m_poolContainer :=
          \<lparr>ptr = Some a, get_deleter = ReturnToPoolDeleter_ctor (Some i)\<rparr> # m_poolContainer pool\<rparr>) \<and>
   trace (deleter_call n d a w) =
     trace w @ replicate (Suc n) (AddCalled i a) @ replicate n (Deleted a)"
proof (induction n arbitrary: d w)
  case 0
  then show ?case by (simp add: deleter_call_push)
next
  case (Suc n)
  have c: "ptrToOwnerPool (ReturnToPoolDeleter_ctor (Some i)) = Some i"
    by (simp add: ReturnToPoolDeleter_ctor_def)
  have p: "pools (log_event (AddCalled i a) w) i = Some pool"
    using Suc.prems by simp
  show ?case
    using Suc.IH [OF c p] Suc.prems
    by (simp add: deleter_call_throw replicate_append_same)
qed

text \<open>The increment of a \<^verbatim>\<open>size_t\<close>.\<close>

lemma size_t_inc_below: "x < SIZE_MAX \<Longrightarrow> size_t_inc x = Suc x"
  by (simp add: size_t_inc_def)

lemma size_t_inc_SIZE_MAX: "size_t_inc SIZE_MAX = 0"
  by (simp add: size_t_inc_def)

lemma size_t_inc_mod: "size_t_inc (k mod Suc SIZE_MAX) = Suc k mod Suc SIZE_MAX"
  by (simp add: size_t_inc_def mod_Suc_eq)

text \<open>The three branches of \<^verbatim>\<open>acquire\<close>.\<close>

lemma acquire_pop:
  "m_poolContainer p = u # rest \<Longrightarrow> acquire i p = (Inr u, p\<lparr>m_poolContainer := rest\<rparr>)"
  by (simp add: acquire_def)

lemma acquire_factory:
  "m_poolContainer p = [] \<Longrightarrow> m_limit p = Unlimited \<or> m_allocated p < m_limit p \<Longrightarrow>
   acquire i p =
     (case m_factory p (factory_calls p) of
        Returns t \<Rightarrow> Inr \<lparr>ptr = t, get_deleter = ReturnToPoolDeleter_ctor (Some i)\<rparr>
      | Throws \<Rightarrow> Inl FactoryFailure,
      p\<lparr>m_allocated := size_t_inc (m_allocated p), factory_calls := factory_calls p + 1\<rparr>)"
  by (auto simp: acquire_def invoke_factory_def split: factory_outcome.splits)

lemma acquire_exhausted:
  "m_poolContainer p = [] \<Longrightarrow> m_limit p \<noteq> Unlimited \<Longrightarrow> \<not> m_allocated p < m_limit p \<Longrightarrow>
   acquire i p = (Inr \<lparr>ptr = None, get_deleter = ReturnToPoolDeleter_ctor None\<rparr>, p)"
  by (simp add: acquire_def)

text \<open>Runs of the client.\<close>

lemma run_Nil [simp]: "run i s [] = s"
  by (simp add: run_def)

lemma run_append: "run i s (xs @ ys) = run i (run i s xs) ys"
  by (simp add: run_def)

lemma run_snoc: "run i s (xs @ [a]) = step i (run i s xs) a"
  by (simp add: run_def)

lemma run_Cons: "run i s (a # xs) = run i (step i s a) xs"
  by (simp add: run_def)

lemma replicate_Suc_snoc: "replicate (Suc k) a = replicate k a @ [a]"
  by (simp add: replicate_append_same)

lemma constructs_Suc:
  "constructs f (Suc k) = (constructs f k \<and> (\<exists>a. f k = Returns (Some a)))"
  by (auto simp: constructs_def split: factory_outcome.splits)

text \<open>The handles acquired, and the state after \<open>k\<close> calls of \<^verbatim>\<open>acquire\<close> on a fresh pool, none
  of them beyond the limit, whatever the factory does.\<close>

lemma acquired_0: "acquired i f 0 = []"
  by (simp add: acquired_def List.map_filter_simps)

lemma acquired_Suc:
  "acquired i f (Suc k) =
     acquired i f k @
     (case f k of
        Returns t \<Rightarrow> [\<lparr>ptr = t, get_deleter = ReturnToPoolDeleter_ctor (Some i)\<rparr>]
      | Throws \<Rightarrow> [])"
  by (simp add: acquired_def List.map_filter_def split: factory_outcome.splits)

lemma acquired_constructs:
  "constructs f k \<Longrightarrow> acquired i f k = map (handle i f) [0..<k]"
proof (induction k)
  case 0
  show ?case by (simp add: acquired_def List.map_filter_simps)
next
  case (Suc k)
  then obtain a where "f k = Returns (Some a)" and "constructs f k"
    by (auto simp: constructs_Suc)
  with Suc.IH show ?case
    by (simp add: acquired_Suc handle_def made_ptr_def)
qed

lemma run_acquires_any:
  "lim = Unlimited \<or> k \<le> lim \<Longrightarrow>
   run i (init i f lim) (replicate k Acquire) =
     \<lparr>sys_world =
        \<lparr>pools = (\<lambda>_. None)(i \<mapsto>
           \<lparr>m_limit = lim, m_allocated = k mod Suc SIZE_MAX, m_factory = f,
            factory_calls = k, m_poolContainer = []\<rparr>),
         trace = []\<rparr>,
      held = acquired i f k\<rparr>"
  (is "_ \<Longrightarrow> _ = ?S k")
proof (induction k)
  case 0
  then show ?case
    by (simp add: init_def create_def fun_upd_def acquired_def List.map_filter_simps)
next
  case (Suc k)
  let ?p = "\<lparr>m_limit = lim, m_allocated = k mod Suc SIZE_MAX, m_factory = f,
            factory_calls = k, m_poolContainer = []\<rparr>"
  from Suc.prems have l: "lim = Unlimited \<or> k < lim" by auto
  then have l': "lim = Unlimited \<or> k \<le> lim" by auto
  have g: "m_limit ?p = Unlimited \<or> m_allocated ?p < m_limit ?p"
  proof (cases "lim = Unlimited")
    case True
    then show ?thesis by simp
  next
    case False
    with l have "k < lim" by simp
    moreover have "k mod Suc SIZE_MAX \<le> k" by (rule mod_less_eq_dividend)
    ultimately have "k mod Suc SIZE_MAX < lim" by linarith
    then show ?thesis by simp
  qed
  have e: "m_poolContainer ?p = []" by simp
  have a: "acquire i ?p =
     (case f k of
        Returns t \<Rightarrow> Inr \<lparr>ptr = t, get_deleter = ReturnToPoolDeleter_ctor (Some i)\<rparr>
      | Throws \<Rightarrow> Inl FactoryFailure,
      \<lparr>m_limit = lim, m_allocated = Suc k mod Suc SIZE_MAX, m_factory = f,
       factory_calls = Suc k, m_poolContainer = []\<rparr>)"
    by (simp add: acquire_factory [OF e g] size_t_inc_mod)
  have "run i (init i f lim) (replicate (Suc k) Acquire) =
        step i (run i (init i f lim) (replicate k Acquire)) Acquire"
    by (simp only: replicate_Suc_snoc run_snoc)
  also have "\<dots> = step i (?S k) Acquire"
    by (simp only: Suc.IH [OF l'])
  also have "\<dots> = ?S (Suc k)"
    by (cases "f k") (simp_all add: a acquired_Suc fun_eq_iff)
  finally show ?case .
qed

text \<open>The state after \<open>k\<close> calls of \<^verbatim>\<open>acquire\<close> on a fresh pool, none of them beyond the limit,
  with a factory that constructs \<open>k\<close> instances.\<close>

lemma run_acquires:
  "constructs f k \<Longrightarrow> lim = Unlimited \<or> k \<le> lim \<Longrightarrow>
   run i (init i f lim) (replicate k Acquire) =
     \<lparr>sys_world =
        \<lparr>pools = (\<lambda>_. None)(i \<mapsto>
           \<lparr>m_limit = lim, m_allocated = k mod Suc SIZE_MAX, m_factory = f,
            factory_calls = k, m_poolContainer = []\<rparr>),
         trace = []\<rparr>,
      held = map (handle i f) [0..<k]\<rparr>"
  by (simp only: run_acquires_any acquired_constructs)

lemma unique_ptr_dtor_attached:
  "attached i u \<Longrightarrow> P i = Some p \<Longrightarrow>
   unique_ptr_dtor 0 u \<lparr>pools = P, trace = T\<rparr> =
     \<lparr>pools = P(i \<mapsto> p\<lparr>m_poolContainer := u # m_poolContainer p\<rparr>),
      trace = T @ map (AddCalled i) (List.map_filter ptr [u])\<rparr>"
proof -
  assume a: "attached i u" and p: "P i = Some p"
  from a obtain x where x: "ptr u = Some x" by (auto simp: attached_def)
  from a have d: "ptrToOwnerPool (get_deleter u) = Some i"
    by (simp add: attached_def ReturnToPoolDeleter_ctor_def)
  from a x have u: "\<lparr>ptr = Some x, get_deleter = ReturnToPoolDeleter_ctor (Some i)\<rparr> = u"
    by (simp add: attached_def)
  from p have p': "pools \<lparr>pools = P, trace = T\<rparr> i = Some p" by simp
  show ?thesis
    using x by (simp add: unique_ptr_dtor_def deleter_call_push [OF d p'] u
        List.map_filter_simps log_event_def)
qed

text \<open>Releasing all the attached handles held, in any order, puts every one of them on the stack.\<close>

lemma run_releases:
  "valid_releases (length hs) ks \<Longrightarrow> list_all (attached i) hs \<Longrightarrow> P i = Some p \<Longrightarrow>
   \<exists>st. length st = length hs \<and> list_all (attached i) st \<and>
     run i \<lparr>sys_world = \<lparr>pools = P, trace = T\<rparr>, held = hs\<rparr> (releases ks) =
       \<lparr>sys_world =
          \<lparr>pools = P(i \<mapsto> p\<lparr>m_poolContainer := st @ m_poolContainer p\<rparr>),
           trace = T @ map (AddCalled i) (List.map_filter ptr (rev st))\<rparr>,
        held = []\<rparr>"
proof (induction ks arbitrary: hs P T p)
  case Nil
  then have hs: "hs = []" by simp
  from Nil have P: "P(i \<mapsto> p) = P" by (auto simp: fun_eq_iff)
  have p: "p\<lparr>m_poolContainer := [] @ m_poolContainer p\<rparr> = p" by simp
  have r: "run i \<lparr>sys_world = \<lparr>pools = P, trace = T\<rparr>, held = hs\<rparr> (releases []) =
       \<lparr>sys_world =
          \<lparr>pools = P(i \<mapsto> p\<lparr>m_poolContainer := [] @ m_poolContainer p\<rparr>),
           trace = T @ map (AddCalled i) (List.map_filter ptr (rev []))\<rparr>,
        held = []\<rparr>"
    unfolding p P by (simp add: hs releases_def List.map_filter_simps)
  show ?case
  proof (intro exI [of _ "[]"] conjI)
    show "length [] = length hs" using hs by simp
    show "list_all (attached i) []" by simp
    show "run i \<lparr>sys_world = \<lparr>pools = P, trace = T\<rparr>, held = hs\<rparr> (releases []) =
       \<lparr>sys_world =
          \<lparr>pools = P(i \<mapsto> p\<lparr>m_poolContainer := [] @ m_poolContainer p\<rparr>),
           trace = T @ map (AddCalled i) (List.map_filter ptr (rev []))\<rparr>,
        held = []\<rparr>"
      by (fact r)
  qed
next
  case (Cons k ks)
  let ?u = "hs ! k"
  let ?hs = "take k hs @ drop (Suc k) hs"
  let ?p = "p\<lparr>m_poolContainer := ?u # m_poolContainer p\<rparr>"
  let ?P = "P(i \<mapsto> ?p)"
  let ?T = "T @ map (AddCalled i) (List.map_filter ptr [?u])"
  from Cons.prems have k: "k < length hs" and v: "valid_releases (length hs - 1) ks"
    by simp_all
  from k have len: "length ?hs = length hs - 1" by auto
  from k Cons.prems(2) have u: "attached i ?u" by (simp add: list_all_length)
  from Cons.prems(2) have hs: "list_all (attached i) ?hs"
    by (auto simp: list_all_iff dest: in_set_takeD in_set_dropD)
  from u obtain x where x: "ptr ?u = Some x" by (auto simp: attached_def)
  have s: "step i \<lparr>sys_world = \<lparr>pools = P, trace = T\<rparr>, held = hs\<rparr> (Release k 0) =
           \<lparr>sys_world = \<lparr>pools = ?P, trace = ?T\<rparr>, held = ?hs\<rparr>"
    using k by (simp add: unique_ptr_dtor_attached [of i ?u P p T, OF u Cons.prems(3)])
  have p': "?P i = Some ?p" by simp
  from v len have v': "valid_releases (length ?hs) ks" by simp
  from Cons.IH [of ?hs ?P ?p ?T, OF v' hs p']
  obtain st where st: "length st = length ?hs" "list_all (attached i) st"
    and r: "run i \<lparr>sys_world = \<lparr>pools = ?P, trace = ?T\<rparr>, held = ?hs\<rparr> (releases ks) =
       \<lparr>sys_world =
          \<lparr>pools = ?P(i \<mapsto> ?p\<lparr>m_poolContainer := st @ m_poolContainer ?p\<rparr>),
           trace = ?T @ map (AddCalled i) (List.map_filter ptr (rev st))\<rparr>,
        held = []\<rparr>"
    by blast
  have "run i \<lparr>sys_world = \<lparr>pools = P, trace = T\<rparr>, held = hs\<rparr> (releases (k # ks)) =
        run i (step i \<lparr>sys_world = \<lparr>pools = P, trace = T\<rparr>, held = hs\<rparr> (Release k 0))
          (releases ks)"
    by (simp only: releases_def list.map run_Cons)
  also have "\<dots> = \<lparr>sys_world =
          \<lparr>pools = ?P(i \<mapsto> ?p\<lparr>m_poolContainer := st @ m_poolContainer ?p\<rparr>),
           trace = ?T @ map (AddCalled i) (List.map_filter ptr (rev st))\<rparr>,
        held = []\<rparr>"
    by (simp only: s r)
  also have "\<dots> = \<lparr>sys_world =
          \<lparr>pools = P(i \<mapsto> p\<lparr>m_poolContainer := (st @ [?u]) @ m_poolContainer p\<rparr>),
           trace = T @ map (AddCalled i) (List.map_filter ptr (rev (st @ [?u])))\<rparr>,
        held = []\<rparr>"
    using x by (simp add: List.map_filter_simps)
  finally have "run i \<lparr>sys_world = \<lparr>pools = P, trace = T\<rparr>, held = hs\<rparr> (releases (k # ks)) =
      \<lparr>sys_world =
          \<lparr>pools = P(i \<mapsto> p\<lparr>m_poolContainer := (st @ [?u]) @ m_poolContainer p\<rparr>),
           trace = T @ map (AddCalled i) (List.map_filter ptr (rev (st @ [?u])))\<rparr>,
        held = []\<rparr>" .
  moreover have "length (st @ [?u]) = length hs" using st(1) len k by simp
  moreover have "list_all (attached i) (st @ [?u])" using st(2) u by simp
  ultimately show ?case by blast
qed

text \<open>Acquiring from a pool whose stack holds \<open>st\<close> on top pops \<open>st\<close> in order.\<close>

lemma run_pops:
  "P i = Some p \<Longrightarrow> m_poolContainer p = st @ rest \<Longrightarrow>
   run i \<lparr>sys_world = \<lparr>pools = P, trace = T\<rparr>, held = hs\<rparr> (replicate (length st) Acquire) =
     \<lparr>sys_world = \<lparr>pools = P(i \<mapsto> p\<lparr>m_poolContainer := rest\<rparr>), trace = T\<rparr>,
      held = hs @ st\<rparr>"
proof (induction st arbitrary: P p hs)
  case Nil
  then have "p\<lparr>m_poolContainer := rest\<rparr> = p" by simp
  moreover from Nil have "P(i \<mapsto> p) = P" by (auto simp: fun_eq_iff)
  ultimately show ?case by simp
next
  case (Cons u st)
  let ?p = "p\<lparr>m_poolContainer := st @ rest\<rparr>"
  let ?P = "P(i \<mapsto> ?p)"
  let ?r = "replicate (length st) Acquire"
  have s: "step i \<lparr>sys_world = \<lparr>pools = P, trace = T\<rparr>, held = hs\<rparr> Acquire =
           \<lparr>sys_world = \<lparr>pools = ?P, trace = T\<rparr>, held = hs @ [u]\<rparr>"
    using Cons.prems by (simp add: acquire_def)
  have p': "?P i = Some ?p" and c: "m_poolContainer ?p = st @ rest" by simp_all
  have "run i \<lparr>sys_world = \<lparr>pools = P, trace = T\<rparr>, held = hs\<rparr>
          (replicate (length (u # st)) Acquire) =
        run i (step i \<lparr>sys_world = \<lparr>pools = P, trace = T\<rparr>, held = hs\<rparr> Acquire) ?r"
    by (simp only: list.size replicate_Suc run_Cons add_Suc_right Nat.add_0_right)
  also have "\<dots> = run i \<lparr>sys_world = \<lparr>pools = ?P, trace = T\<rparr>, held = hs @ [u]\<rparr> ?r"
    by (simp only: s)
  also have "\<dots> = \<lparr>sys_world = \<lparr>pools = ?P(i \<mapsto> ?p\<lparr>m_poolContainer := rest\<rparr>), trace = T\<rparr>,
      held = (hs @ [u]) @ st\<rparr>"
    by (rule Cons.IH [of ?P ?p "hs @ [u]", OF p' c])
  also have "\<dots> = \<lparr>sys_world = \<lparr>pools = P(i \<mapsto> p\<lparr>m_poolContainer := rest\<rparr>), trace = T\<rparr>,
      held = hs @ u # st\<rparr>"
    by simp
  finally show ?case .
qed

text \<open>The destructor of the pool: every entry is deleted through its detached deleter.\<close>

lemma unique_ptr_dtor_detached:
  "unique_ptr_dtor n (u\<lparr>get_deleter := detachFromPool (get_deleter u)\<rparr>) w =
     w\<lparr>trace := trace w @ map Deleted (List.map_filter ptr [u])\<rparr>"
  by (cases "ptr u")
    (simp_all add: unique_ptr_dtor_def deleter_call_detached detachFromPool_def
      List.map_filter_simps delete_obj_def log_event_def)

lemma dtor_loop_eq:
  "dtor_loop n st w = w\<lparr>trace := trace w @ map Deleted (List.map_filter ptr st)\<rparr>"
proof (induction st arbitrary: w)
  case Nil
  show ?case by (simp add: List.map_filter_simps)
next
  case (Cons u st)
  show ?case
    by (cases "ptr u") (simp_all add: Cons.IH unique_ptr_dtor_detached List.map_filter_simps)
qed

lemma checked_out_remove:
  "k < length (held s) \<Longrightarrow>
   checked_out \<lparr>sys_world = w, held = take k (held s) @ drop (Suc k) (held s)\<rparr> +
     (if ptr (held s ! k) \<noteq> None then 1 else 0) = checked_out s"
proof -
  assume k: "k < length (held s)"
  let ?Q = "\<lambda>u. ptr u \<noteq> None"
  have "length (filter ?Q (held s)) =
        length (filter ?Q (take k (held s) @ held s ! k # drop (Suc k) (held s)))"
    using id_take_nth_drop [OF k] by simp
  then show ?thesis by (simp add: checked_out_def)
qed

text \<open>The invariant holds at the start and every action of the client keeps it.\<close>

lemma init_inv: "pool_inv i f lim (init i f lim)"
  by (simp add: pool_inv_def init_def create_def checked_out_def)

lemma step_Acquire_inv:
  assumes inv: "pool_inv i f lim s"
  shows "pool_inv i f lim (step i s Acquire)"
proof (cases "pools (sys_world s) i")
  case None
  with inv show ?thesis by simp
next
  case (Some p)
  from inv Some have others: "\<forall>j. j \<noteq> i \<longrightarrow> pools (sys_world s) j = None"
    and l: "m_limit p = lim" and f: "m_factory p = f"
    and a: "m_allocated p = factory_calls p mod Suc SIZE_MAX"
    and c: "length (m_poolContainer p) + checked_out s \<le> factory_calls p"
    and b: "lim \<noteq> Unlimited \<longrightarrow> lim \<le> SIZE_MAX \<longrightarrow> factory_calls p \<le> lim"
    by (simp_all add: pool_inv_def)
  show ?thesis
  proof (cases "m_poolContainer p")
    case (Cons u rest)
    have "checked_out \<lparr>sys_world = w, held = held s @ [u]\<rparr> \<le> Suc (checked_out s)" for w
      by (simp add: checked_out_def)
    with Some others l f a c b Cons show ?thesis
      by (auto simp: pool_inv_def acquire_pop [OF Cons] checked_out_def)
  next
    case Nil
    show ?thesis
    proof (cases "m_limit p = Unlimited \<or> m_allocated p < m_limit p")
      case True
      note acq = acquire_factory [OF Nil True, of i]
      have b': "lim \<noteq> Unlimited \<longrightarrow> lim \<le> SIZE_MAX \<longrightarrow> Suc (factory_calls p) \<le> lim"
      proof (intro impI)
        assume n: "lim \<noteq> Unlimited" and m: "lim \<le> SIZE_MAX"
        with b have "factory_calls p \<le> SIZE_MAX" by simp
        then have "factory_calls p mod Suc SIZE_MAX = factory_calls p" by simp
        with True l n a show "Suc (factory_calls p) \<le> lim" by simp
      qed
      from Some others l f a c b' Nil show ?thesis
        by (cases "f (factory_calls p)")
          (auto simp: pool_inv_def acq size_t_inc_mod checked_out_def)
    next
      case False
      then have acq: "acquire i p =
          (Inr \<lparr>ptr = None, get_deleter = ReturnToPoolDeleter_ctor None\<rparr>, p)"
        using Nil by (simp add: acquire_exhausted)
      have "(pools (sys_world s))(i \<mapsto> p) = pools (sys_world s)"
        using Some by (auto simp: fun_eq_iff)
      with Some inv show ?thesis
        by (simp add: pool_inv_def acq checked_out_def)
    qed
  qed
qed

lemma step_Release_inv:
  assumes inv: "pool_inv i f lim s"
  shows "pool_inv i f lim (step i s (Release k n))"
proof (cases "k < length (held s)")
  case False
  with inv show ?thesis by simp
next
  case k: True
  let ?u = "held s ! k"
  let ?hs = "take k (held s) @ drop (Suc k) (held s)"
  note cnt = checked_out_remove [OF k]
  show ?thesis
  proof (cases "ptr ?u")
    case None
    then have "step i s (Release k n) = \<lparr>sys_world = sys_world s, held = ?hs\<rparr>"
      using k by (simp add: unique_ptr_dtor_def)
    moreover have "checked_out \<lparr>sys_world = sys_world s, held = ?hs\<rparr> = checked_out s"
      using cnt [of "sys_world s"] None by simp
    ultimately show ?thesis using inv by (simp add: pool_inv_def)
  next
    case (Some a)
    let ?w = "deleter_call n (get_deleter ?u) a (sys_world s)"
    from Some have st: "step i s (Release k n) = \<lparr>sys_world = ?w, held = ?hs\<rparr>"
      using k by (simp add: unique_ptr_dtor_def)
    have less: "Suc (checked_out \<lparr>sys_world = ?w, held = ?hs\<rparr>) = checked_out s"
      using cnt [of ?w] Some by simp
    show ?thesis
    proof (cases "lock (ptrToOwnerPool (get_deleter ?u)) (sys_world s)")
      case None
      then have "?w = delete_obj a (sys_world s)"
        by (simp add: deleter_call.simps)
      with st less inv show ?thesis by (auto simp: pool_inv_def)
    next
      case (Some jp)
      then obtain j p where d: "ptrToOwnerPool (get_deleter ?u) = Some j"
        and p: "pools (sys_world s) j = Some p"
        by (auto simp: lock_def split: option.splits)
      with inv have j: "j = i" by (auto simp: pool_inv_def)
      note live = deleter_call_live [OF d p, of n a]
      from st less inv p j live show ?thesis
        by (auto simp: pool_inv_def)
    qed
  qed
qed

lemma step_Reset_inv:
  assumes inv: "pool_inv i f lim s"
  shows "pool_inv i f lim (step i s (Reset n))"
  using inv by (auto simp: pool_inv_def destroy_def dtor_loop_eq split: option.splits)

lemma step_inv: "pool_inv i f lim s \<Longrightarrow> pool_inv i f lim (step i s a)"
  by (cases a) (simp_all only: step_Acquire_inv step_Release_inv step_Reset_inv)

lemma run_inv: "pool_inv i f lim s \<Longrightarrow> pool_inv i f lim (run i s acts)"
  by (induction acts arbitrary: s) (simp_all add: run_Cons step_inv del: step.simps)

lemma reachable_inv: "pool_inv i f lim (run i (init i f lim) acts)"
  by (rule run_inv [OF init_inv])

text \<open>What one action does to the counters of a pool that is alive after it: the pool was
  alive before, its limit is the same, at most one invocation of the factory was added, and
  that by \<^verbatim>\<open>acquire\<close> alone; \<^verbatim>\<open>_allocated\<close> is changed by \<^verbatim>\<open>acquire\<close> alone and is not lowered
  unless it was \<open>SIZE_MAX\<close>.\<close>

lemma acquire_effect:
  "limit (snd (acquire i p)) = limit p \<and>
   factory_calls (snd (acquire i p)) \<le> Suc (factory_calls p) \<and>
   (allocated p < SIZE_MAX \<longrightarrow> allocated p \<le> allocated (snd (acquire i p)))"
proof (cases "m_poolContainer p")
  case (Cons u rest)
  then show ?thesis by (simp add: acquire_pop limit_def allocated_def)
next
  case Nil
  show ?thesis
  proof (cases "m_limit p = Unlimited \<or> m_allocated p < m_limit p")
    case True
    show ?thesis
      by (simp add: acquire_factory [OF Nil True] limit_def allocated_def size_t_inc_below)
  next
    case False
    with Nil show ?thesis by (simp add: acquire_exhausted)
  qed
qed

lemma step_effect:
  assumes p': "pools (sys_world (step i s a)) i = Some p'"
  shows "\<exists>p. pools (sys_world s) i = Some p \<and> limit p' = limit p \<and>
           factory_calls p' \<le> factory_calls p + (if a = Acquire then 1 else 0) \<and>
           (a \<noteq> Acquire \<longrightarrow> allocated p' = allocated p) \<and>
           (allocated p < SIZE_MAX \<longrightarrow> allocated p \<le> allocated p')"
proof (cases a)
  case Acquire
  show ?thesis
  proof (cases "pools (sys_world s) i")
    case None
    with Acquire p' show ?thesis by simp
  next
    case (Some p)
    with Acquire p' have "p' = snd (acquire i p)"
      by (auto split: prod.splits sum.splits)
    with Some Acquire acquire_effect [of i p] show ?thesis by simp
  qed
next
  case (Release k n)
  show ?thesis
  proof (cases "k < length (held s)")
    case False
    with Release p' show ?thesis by simp
  next
    case k: True
    show ?thesis
    proof (cases "ptr (held s ! k)")
      case None
      with Release k p' show ?thesis by (simp add: unique_ptr_dtor_def)
    next
      case (Some x)
      let ?d = "get_deleter (held s ! k)"
      from Release k Some p' have q: "pools (deleter_call n ?d x (sys_world s)) i = Some p'"
        by (simp add: unique_ptr_dtor_def)
      show ?thesis
      proof (cases "lock (ptrToOwnerPool ?d) (sys_world s)")
        case None
        then have "deleter_call n ?d x (sys_world s) = delete_obj x (sys_world s)"
          by (simp add: deleter_call.simps)
        with q Release show ?thesis by simp
      next
        case (Some jq)
        then obtain j q where d: "ptrToOwnerPool ?d = Some j"
          and j: "pools (sys_world s) j = Some q"
          by (auto simp: lock_def split: option.splits)
        from deleter_call_live [OF d j, of n x] q j Release show ?thesis
          by (cases "j = i") (auto simp: allocated_def limit_def)
      qed
    qed
  qed
next
  case (Reset n)
  with p' show ?thesis
    by (simp add: destroy_def dtor_loop_eq split: option.splits)
qed

lemma run_factory_calls:
  "pools (sys_world (run i s acts)) i = Some p' \<Longrightarrow>
   \<exists>p. pools (sys_world s) i = Some p \<and>
       factory_calls p' \<le> factory_calls p + count_list acts Acquire"
proof (induction acts arbitrary: s)
  case Nil
  then show ?case by simp
next
  case (Cons a acts)
  from Cons.prems have "pools (sys_world (run i (step i s a) acts)) i = Some p'"
    by (simp only: run_Cons)
  from Cons.IH [OF this] obtain p1 where p1: "pools (sys_world (step i s a)) i = Some p1"
    and c1: "factory_calls p' \<le> factory_calls p1 + count_list acts Acquire"
    by blast
  from step_effect [OF p1] obtain p where p: "pools (sys_world s) i = Some p"
    and c: "factory_calls p1 \<le> factory_calls p + (if a = Acquire then 1 else 0)"
    by blast
  from c1 c have "factory_calls p' \<le> factory_calls p + count_list (a # acts) Acquire"
    by (simp split: if_splits)
  with p show ?case by blast
qed

lemma reachable_factory_calls:
  "pools (sys_world (run i (init i f lim) acts)) i = Some p \<Longrightarrow>
   factory_calls p \<le> count_list acts Acquire"
  by (drule run_factory_calls) (auto simp: init_def create_def)

lemma unique_ptr_dtor_push:
  assumes "ptr u = Some a" and "ptrToOwnerPool (get_deleter u) = Some i"
    and "pools w i = Some pool"
  shows "unique_ptr_dtor 0 u w =
     w\<lparr>pools := (pools w)(i \<mapsto> pool\<lparr>m_poolContainer :=
          \<lparr>ptr = Some a, get_deleter = ReturnToPoolDeleter_ctor (Some i)\<rparr> # m_poolContainer pool\<rparr>),
       trace := trace w @ [AddCalled i a]\<rparr>"
  using assms by (simp add: unique_ptr_dtor_def deleter_call_push log_event_def)

lemma pooled_create: "pooled (create f lim) = 0"
  by (simp add: pooled_def create_def)

lemma map_filter_all_Some:
  "list_all (\<lambda>u. g u \<noteq> None) xs \<Longrightarrow> length (List.map_filter g xs) = length xs"
  by (induction xs) (auto simp: List.map_filter_simps)




text \<open>The scenario of C6 and C9: \<open>k\<close> acquisitions, then the release of all \<open>k\<close> handles.\<close>

lemma attached_handle:
  "constructs f k \<Longrightarrow> list_all (attached i) (map (handle i f) [0..<k])"
  by (auto simp: constructs_def list_all_iff attached_def handle_def made_ptr_def
      split: factory_outcome.splits)

lemma run_acquire_release:
  assumes c: "constructs f k" and l: "lim = Unlimited \<or> k \<le> lim"
    and v: "valid_releases k ks"
  shows "\<exists>st. length st = k \<and> list_all (attached i) st \<and>
     run i (init i f lim) (replicate k Acquire @ releases ks) =
     \<lparr>sys_world =
        \<lparr>pools = (\<lambda>_. None)(i \<mapsto>
           \<lparr>m_limit = lim, m_allocated = k mod Suc SIZE_MAX, m_factory = f, factory_calls = k,
            m_poolContainer = st\<rparr>),
         trace = map (AddCalled i) (List.map_filter ptr (rev st))\<rparr>,
      held = []\<rparr>"
proof -
  let ?hs = "map (handle i f) [0..<k]"
  let ?p = "\<lparr>m_limit = lim, m_allocated = k mod Suc SIZE_MAX, m_factory = f, factory_calls = k,
            m_poolContainer = []\<rparr>"
  let ?P = "(\<lambda>_. None)(i \<mapsto> ?p)"
  have len: "length ?hs = k" by simp
  have P: "?P i = Some ?p" by simp
  from v have v': "valid_releases (length ?hs) ks" by simp
  from run_releases [of ?hs ks i ?P ?p "[]", OF v' attached_handle [OF c] P]
  obtain st where st: "length st = length ?hs" "list_all (attached i) st"
    and r: "run i \<lparr>sys_world = \<lparr>pools = ?P, trace = []\<rparr>, held = ?hs\<rparr> (releases ks) =
       \<lparr>sys_world =
          \<lparr>pools = ?P(i \<mapsto> ?p\<lparr>m_poolContainer := st @ m_poolContainer ?p\<rparr>),
           trace = [] @ map (AddCalled i) (List.map_filter ptr (rev st))\<rparr>,
        held = []\<rparr>"
    by blast
  have "run i (init i f lim) (replicate k Acquire @ releases ks) =
        run i \<lparr>sys_world = \<lparr>pools = ?P, trace = []\<rparr>, held = ?hs\<rparr> (releases ks)"
    by (simp only: run_append run_acquires [OF c l])
  also note r
  finally have "run i (init i f lim) (replicate k Acquire @ releases ks) =
     \<lparr>sys_world =
        \<lparr>pools = (\<lambda>_. None)(i \<mapsto>
           \<lparr>m_limit = lim, m_allocated = k mod Suc SIZE_MAX, m_factory = f, factory_calls = k,
            m_poolContainer = st\<rparr>),
         trace = map (AddCalled i) (List.map_filter ptr (rev st))\<rparr>,
      held = []\<rparr>"
    by simp
  with st len show ?thesis by auto
qed

lemma run_pops_from:
  assumes j: "j \<le> length st"
  shows "run i \<lparr>sys_world =
        \<lparr>pools = (\<lambda>_. None)(i \<mapsto>
           \<lparr>m_limit = lim, m_allocated = al, m_factory = f, factory_calls = k,
            m_poolContainer = st\<rparr>),
         trace = T\<rparr>,
      held = []\<rparr> (replicate j Acquire) =
     \<lparr>sys_world =
        \<lparr>pools = (\<lambda>_. None)(i \<mapsto>
           \<lparr>m_limit = lim, m_allocated = al, m_factory = f, factory_calls = k,
            m_poolContainer = drop j st\<rparr>),
         trace = T\<rparr>,
      held = take j st\<rparr>"
proof -
  let ?p = "\<lparr>m_limit = lim, m_allocated = al, m_factory = f, factory_calls = k,
            m_poolContainer = st\<rparr>"
  let ?P = "(\<lambda>_. None)(i \<mapsto> ?p)"
  have len: "length (take j st) = j" using j by simp
  have P: "?P i = Some ?p" by simp
  have st: "m_poolContainer ?p = take j st @ drop j st" by simp
  have "run i \<lparr>sys_world = \<lparr>pools = ?P, trace = T\<rparr>, held = []\<rparr>
          (replicate (length (take j st)) Acquire) =
        \<lparr>sys_world = \<lparr>pools = ?P(i \<mapsto> ?p\<lparr>m_poolContainer := drop j st\<rparr>), trace = T\<rparr>,
         held = [] @ take j st\<rparr>"
    by (rule run_pops [of ?P i ?p "take j st" "drop j st" T "[]", OF P st])
  then show ?thesis
    by (simp only: len) simp
qed

text \<open>Two factories for the runs that wrap the counter: one that constructs a single instance
  and then throws every time, and the run of a pool without limit up to the wrap.\<close>

lemma acquired_first_only:
  "acquired i (\<lambda>k. if k = 0 then Returns (Some a) else Throws) (Suc n) =
     [\<lparr>ptr = Some a, get_deleter = ReturnToPoolDeleter_ctor (Some i)\<rparr>]"
proof (induction n)
  case 0
  show ?case by (simp add: acquired_Suc acquired_0)
next
  case (Suc n)
  show ?case by (subst acquired_Suc) (simp add: Suc.IH)
qed

lemma run_acquires_unlimited:
  "run i (init i f Unlimited) (replicate k Acquire) =
     \<lparr>sys_world =
        \<lparr>pools = (\<lambda>_. None)(i \<mapsto>
           \<lparr>m_limit = Unlimited, m_allocated = k mod Suc SIZE_MAX, m_factory = f,
            factory_calls = k, m_poolContainer = []\<rparr>),
         trace = []\<rparr>,
      held = acquired i f k\<rparr>"
  by (rule run_acquires_any) simp


section \<open>Properties\<close>

text \<open>
  C1. The claim: when the factory throws, the exception leaves \<^verbatim>\<open>acquire\<close> and \<^verbatim>\<open>allocated()\<close>
  afterwards equals its value before the call. The exception does leave \<^verbatim>\<open>acquire\<close>, but the
  counter was incremented before the factory ran and stays so: on a fresh unlimited pool
  whose factory throws, the call ends in the exception, \<^verbatim>\<open>allocated()\<close> was 0 before it and
  is 1 after it.
\<close>

theorem acquire_factory_throws_counts:
  "fst (acquire 0 (create (\<lambda>_. Throws) Unlimited)) = Inl FactoryFailure \<and>
   allocated (create (\<lambda>_. Throws) Unlimited) = 0 \<and>
   allocated (snd (acquire 0 (create (\<lambda>_. Throws) Unlimited))) = 1"
  by (simp add: acquire_def invoke_factory_def create_def allocated_def size_t_inc_def
      SIZE_MAX_def)

text \<open>
  C2. A pool with a limit \<open>N\<close> other than \<open>Unlimited\<close> (a value of \<^verbatim>\<open>size_t\<close>, so at most
  \<open>SIZE_MAX\<close>), a factory that constructs an instance on each of its first \<open>N\<close> invocations,
  and a client that only acquires. For every
  \<open>k < N\<close>, after \<open>k\<close> calls \<^verbatim>\<open>allocated()\<close> is \<open>k\<close> and \<^verbatim>\<open>pooled()\<close> is 0, the next call returns
  a handle that is not empty, and leaves \<^verbatim>\<open>allocated()\<close> at \<open>k + 1\<close> and \<^verbatim>\<open>pooled()\<close> at 0. After
  \<open>N\<close> calls the next one returns normally (\<open>Inr\<close>, no exception) the empty handle and leaves
  the pool as it was, with \<^verbatim>\<open>allocated()\<close> at \<open>N\<close> and \<^verbatim>\<open>pooled()\<close> at 0.
\<close>

theorem exhaustion_boundary:
  assumes N: "N \<noteq> Unlimited" and c: "constructs f N" and S: "N \<le> SIZE_MAX"
  shows "(\<forall>k<N. \<exists>p. pools (sys_world (run i (init i f N) (replicate k Acquire))) i = Some p \<and>
            limit p = N \<and> allocated p = k \<and> pooled p = 0 \<and>
            (\<exists>u. fst (acquire i p) = Inr u \<and> ptr u \<noteq> None) \<and>
            allocated (snd (acquire i p)) = k + 1 \<and> pooled (snd (acquire i p)) = 0 \<and>
            pools (sys_world (run i (init i f N) (replicate (k + 1) Acquire))) i =
              Some (snd (acquire i p))) \<and>
         (\<exists>p. pools (sys_world (run i (init i f N) (replicate N Acquire))) i = Some p \<and>
            limit p = N \<and> allocated p = N \<and> pooled p = 0 \<and>
            fst (acquire i p) = Inr \<lparr>ptr = None, get_deleter = ReturnToPoolDeleter_ctor None\<rparr> \<and>
            snd (acquire i p) = p)"
proof (intro conjI allI impI)
  fix k assume k: "k < N"
  then have ck: "constructs f k" and ck1: "constructs f (k + 1)"
    using c by (auto simp: constructs_def list_all_iff)
  from k have l: "N = Unlimited \<or> k \<le> N" and l1: "N = Unlimited \<or> k + 1 \<le> N" by auto
  from ck1 obtain a where a: "f k = Returns (Some a)" by (auto simp: constructs_Suc)
  from k S have m: "k mod Suc SIZE_MAX = k" and m1: "(k + 1) mod Suc SIZE_MAX = Suc k"
    and inc: "size_t_inc k = Suc k"
    by (simp_all add: size_t_inc_below)
  show "\<exists>p. pools (sys_world (run i (init i f N) (replicate k Acquire))) i = Some p \<and>
            limit p = N \<and> allocated p = k \<and> pooled p = 0 \<and>
            (\<exists>u. fst (acquire i p) = Inr u \<and> ptr u \<noteq> None) \<and>
            allocated (snd (acquire i p)) = k + 1 \<and> pooled (snd (acquire i p)) = 0 \<and>
            pools (sys_world (run i (init i f N) (replicate (k + 1) Acquire))) i =
              Some (snd (acquire i p))"
    unfolding run_acquires [OF ck l] run_acquires [OF ck1 l1] m m1
    using k a inc
    by (simp add: acquire_def invoke_factory_def limit_def allocated_def pooled_def)
next
  have l: "N = Unlimited \<or> N \<le> N" by simp
  from S have m: "N mod Suc SIZE_MAX = N" by simp
  show "\<exists>p. pools (sys_world (run i (init i f N) (replicate N Acquire))) i = Some p \<and>
            limit p = N \<and> allocated p = N \<and> pooled p = 0 \<and>
            fst (acquire i p) = Inr \<lparr>ptr = None, get_deleter = ReturnToPoolDeleter_ctor None\<rparr> \<and>
            snd (acquire i p) = p"
    unfolding run_acquires [OF c l] m
    using N by (simp add: acquire_def limit_def allocated_def pooled_def)
qed

text \<open>
  C2 at the limit 3 with the factory that returns the instance \<open>k\<close> on its \<open>k\<close>-th invocation:
  the third call succeeds and the fourth returns the empty handle.
\<close>

theorem exhaustion_boundary_witness:
  "(3::nat) \<noteq> Unlimited \<and> constructs (\<lambda>k. Returns (Some k)) 3 \<and> (3::nat) \<le> SIZE_MAX \<and>
   (\<exists>p. pools (sys_world (run 0 (init 0 (\<lambda>k. Returns (Some k)) 3) (replicate 2 Acquire))) 0 =
           Some p \<and> allocated p = 2 \<and> pooled p = 0 \<and>
        (\<exists>u. fst (acquire 0 p) = Inr u \<and> ptr u \<noteq> None) \<and>
        allocated (snd (acquire 0 p)) = 3 \<and> pooled (snd (acquire 0 p)) = 0) \<and>
   (\<exists>p. pools (sys_world (run 0 (init 0 (\<lambda>k. Returns (Some k)) 3) (replicate 3 Acquire))) 0 =
           Some p \<and> allocated p = 3 \<and> pooled p = 0 \<and>
        fst (acquire 0 p) = Inr \<lparr>ptr = None, get_deleter = ReturnToPoolDeleter_ctor None\<rparr> \<and>
        snd (acquire 0 p) = p)"
proof -
  have h1: "(3::nat) \<noteq> Unlimited" by (simp add: Unlimited_def)
  have h2: "constructs (\<lambda>k. Returns (Some k)) 3" by code_simp
  have h4: "(3::nat) \<le> SIZE_MAX" by (simp add: SIZE_MAX_def)
  have h3: "(2::nat) < 3" by simp
  note T = exhaustion_boundary [OF h1 h2 h4, of 0]
  from T h3 have A: "\<exists>p. pools (sys_world (run 0 (init 0 (\<lambda>k. Returns (Some k)) 3)
            (replicate 2 Acquire))) 0 = Some p \<and> allocated p = 2 \<and> pooled p = 0 \<and>
        (\<exists>u. fst (acquire 0 p) = Inr u \<and> ptr u \<noteq> None) \<and>
        allocated (snd (acquire 0 p)) = 2 + 1 \<and> pooled (snd (acquire 0 p)) = 0"
    by blast
  from T have B: "\<exists>p. pools (sys_world (run 0 (init 0 (\<lambda>k. Returns (Some k)) 3)
            (replicate 3 Acquire))) 0 = Some p \<and> allocated p = 3 \<and> pooled p = 0 \<and>
        fst (acquire 0 p) = Inr \<lparr>ptr = None, get_deleter = ReturnToPoolDeleter_ctor None\<rparr> \<and>
        snd (acquire 0 p) = p"
    by blast
  from A have A': "\<exists>p. pools (sys_world (run 0 (init 0 (\<lambda>k. Returns (Some k)) 3)
            (replicate 2 Acquire))) 0 = Some p \<and> allocated p = 2 \<and> pooled p = 0 \<and>
        (\<exists>u. fst (acquire 0 p) = Inr u \<and> ptr u \<noteq> None) \<and>
        allocated (snd (acquire 0 p)) = 3 \<and> pooled (snd (acquire 0 p)) = 0"
    by (simp only: numeral_plus_one semiring_norm)
  from h1 h2 h4 A' B show ?thesis by (intro conjI)
qed

text \<open>
  C3. The claim gives \<open>pooled() \<le> allocated()\<close> in every reachable state of a pool without
  limit. \<^verbatim>\<open>_allocated\<close> is a \<^verbatim>\<open>size_t\<close> that \<^verbatim>\<open>acquire\<close> increments without a guard when there is
  no limit, so the increment from \<open>SIZE_MAX\<close> gives 0. A client of a pool without limit
  acquires one instance and keeps it, calls \<^verbatim>\<open>acquire\<close> \<open>SIZE_MAX\<close> more times with a factory
  that throws, and releases the instance: \<^verbatim>\<open>pooled()\<close> is 1 and \<^verbatim>\<open>allocated()\<close> is 0. The same
  holds with a factory that constructs every time, for a client that keeps all the handles
  and releases the first.
\<close>

theorem unlimited_counter_wraps_below_pooled:
  "map_option limit
     (pools (sys_world (run 0 (init 0 (\<lambda>k. if k = 0 then Returns (Some 7) else Throws) Unlimited)
        (replicate (Suc SIZE_MAX) Acquire @ [Release 0 0]))) 0) = Some Unlimited \<and>
   map_option pooled
     (pools (sys_world (run 0 (init 0 (\<lambda>k. if k = 0 then Returns (Some 7) else Throws) Unlimited)
        (replicate (Suc SIZE_MAX) Acquire @ [Release 0 0]))) 0) = Some 1 \<and>
   map_option allocated
     (pools (sys_world (run 0 (init 0 (\<lambda>k. if k = 0 then Returns (Some 7) else Throws) Unlimited)
        (replicate (Suc SIZE_MAX) Acquire @ [Release 0 0]))) 0) = Some 0 \<and>
   map_option pooled
     (pools (sys_world (run 0 (init 0 (\<lambda>k. Returns (Some k)) Unlimited)
        (replicate (Suc SIZE_MAX) Acquire @ [Release 0 0]))) 0) = Some 1 \<and>
   map_option allocated
     (pools (sys_world (run 0 (init 0 (\<lambda>k. Returns (Some k)) Unlimited)
        (replicate (Suc SIZE_MAX) Acquire @ [Release 0 0]))) 0) = Some 0"
proof -
  let ?G = "\<lambda>k. if k = 0 then Returns (Some 7) else Throws"
  let ?F = "\<lambda>k. Returns (Some k)"
  let ?h = "\<lambda>a. \<lparr>ptr = Some a, get_deleter = ReturnToPoolDeleter_ctor (Some 0)\<rparr>"
  have hF: "acquired 0 ?F (Suc SIZE_MAX) = ?h 0 # map (handle 0 ?F) [Suc 0..<Suc SIZE_MAX]"
  proof -
    have "constructs ?F (Suc SIZE_MAX)" by (simp add: constructs_def list_all_iff)
    then have "acquired 0 ?F (Suc SIZE_MAX) = map (handle 0 ?F) [0..<Suc SIZE_MAX]"
      by (rule acquired_constructs)
    also have "\<dots> = handle 0 ?F 0 # map (handle 0 ?F) [Suc 0..<Suc SIZE_MAX]"
      by (simp only: upt_conv_Cons [of 0 "Suc SIZE_MAX"] zero_less_Suc list.map)
    finally show ?thesis by (simp add: handle_def made_ptr_def)
  qed
  have G: "run 0 (init 0 ?G Unlimited) (replicate (Suc SIZE_MAX) Acquire @ [Release 0 0]) =
      step 0 \<lparr>sys_world =
        \<lparr>pools = (\<lambda>_. None)(0 \<mapsto>
           \<lparr>m_limit = Unlimited, m_allocated = Suc SIZE_MAX mod Suc SIZE_MAX, m_factory = ?G,
            factory_calls = Suc SIZE_MAX, m_poolContainer = []\<rparr>),
         trace = []\<rparr>,
      held = [?h 7]\<rparr> (Release 0 0)"
    by (simp only: run_snoc run_acquires_unlimited acquired_first_only)
  have F: "run 0 (init 0 ?F Unlimited) (replicate (Suc SIZE_MAX) Acquire @ [Release 0 0]) =
      step 0 \<lparr>sys_world =
        \<lparr>pools = (\<lambda>_. None)(0 \<mapsto>
           \<lparr>m_limit = Unlimited, m_allocated = Suc SIZE_MAX mod Suc SIZE_MAX, m_factory = ?F,
            factory_calls = Suc SIZE_MAX, m_poolContainer = []\<rparr>),
         trace = []\<rparr>,
      held = ?h 0 # map (handle 0 ?F) [Suc 0..<Suc SIZE_MAX]\<rparr> (Release 0 0)"
    by (simp only: run_snoc run_acquires_unlimited hF)
  show ?thesis
    unfolding G F
    by (simp add: unique_ptr_dtor_def deleter_call.simps lock_def add_def
        ReturnToPoolDeleter_ctor_def log_event_def limit_def pooled_def allocated_def)
qed

text \<open>
  C3, as the code has it. In every state that the client can reach from a fresh pool whose
  limit is a value of \<^verbatim>\<open>size_t\<close>, by acquiring, releasing handles it holds (with any number
  of throwing pushes) and dropping the pool, whatever the factory does, a pool that is alive
  has its limit unchanged. When the limit is not \<open>Unlimited\<close>,
  \<open>0 \<le> pooled() \<le> allocated() \<le> limit()\<close>. When it is \<open>Unlimited\<close>,
  \<open>0 \<le> pooled() \<le> allocated()\<close> as long as the pool has invoked its factory at most
  \<open>SIZE_MAX\<close> times, which is so after at most \<open>SIZE_MAX\<close> calls of \<^verbatim>\<open>acquire\<close>.
\<close>

theorem reachable_counts_ordered:
  assumes alive: "pools (sys_world (run i (init i f lim) acts)) i = Some p"
    and S: "lim \<le> SIZE_MAX"
  shows "limit p = lim \<and> 0 \<le> pooled p \<and>
         (limit p \<noteq> Unlimited \<longrightarrow> pooled p \<le> allocated p \<and> allocated p \<le> limit p) \<and>
         factory_calls p \<le> count_list acts Acquire \<and>
         (limit p = Unlimited \<longrightarrow> factory_calls p \<le> SIZE_MAX \<longrightarrow> pooled p \<le> allocated p)"
proof -
  from reachable_inv [of i f lim acts] alive
  have l: "m_limit p = lim"
    and a: "m_allocated p = factory_calls p mod Suc SIZE_MAX"
    and c: "length (m_poolContainer p) \<le> factory_calls p"
    and b: "lim \<noteq> Unlimited \<longrightarrow> lim \<le> SIZE_MAX \<longrightarrow> factory_calls p \<le> lim"
    by (simp_all add: pool_inv_def)
  have small: "factory_calls p \<le> SIZE_MAX \<Longrightarrow> m_allocated p = factory_calls p"
    using a by simp
  from b S have "lim \<noteq> Unlimited \<Longrightarrow> factory_calls p \<le> lim \<and> factory_calls p \<le> SIZE_MAX"
    by simp
  with l c small reachable_factory_calls [OF alive] show ?thesis
    by (auto simp: limit_def pooled_def allocated_def)
qed

text \<open>
  C3 at the limit 2, after three calls of \<^verbatim>\<open>acquire\<close> and the release of the first handle, and
  without limit after two calls and the release of the first handle.
\<close>

theorem reachable_counts_ordered_witness:
  "(2::nat) \<le> SIZE_MAX \<and>
   (\<exists>p. pools (sys_world (run 0 (init 0 (\<lambda>k. Returns (Some k)) 2)
            [Acquire, Acquire, Acquire, Release 0 0])) 0 = Some p \<and>
        limit p = 2 \<and> limit p \<noteq> Unlimited \<and> pooled p = 1 \<and> allocated p = 2 \<and>
        pooled p \<le> allocated p \<and> allocated p \<le> limit p) \<and>
   (\<exists>p. pools (sys_world (run 0 (init 0 (\<lambda>k. Returns (Some k)) Unlimited)
            [Acquire, Acquire, Release 0 0])) 0 = Some p \<and>
        limit p = Unlimited \<and> factory_calls p \<le> SIZE_MAX \<and> pooled p = 1 \<and>
        allocated p = 2 \<and> pooled p \<le> allocated p)"
proof -
  let ?F = "\<lambda>k. Returns (Some k)"
  let ?h = "\<lparr>ptr = Some 0, get_deleter = ReturnToPoolDeleter_ctor (Some 0)\<rparr>"
  have S: "(2::nat) \<le> SIZE_MAX" and U: "Unlimited \<le> SIZE_MAX"
    by (simp_all add: SIZE_MAX_def Unlimited_def)
  have i1: "size_t_inc 0 = Suc 0" and i2: "size_t_inc (Suc 0) = 2"
    by (simp_all add: size_t_inc_def SIZE_MAX_def)
  have p: "pools (sys_world (run 0 (init 0 ?F 2) [Acquire, Acquire, Acquire, Release 0 0])) 0 =
      Some \<lparr>m_limit = 2, m_allocated = 2, m_factory = ?F, factory_calls = 2,
            m_poolContainer = [?h]\<rparr>"
    by (simp add: run_def init_def create_def acquire_def invoke_factory_def Unlimited_def
        unique_ptr_dtor_def deleter_call.simps lock_def add_def ReturnToPoolDeleter_ctor_def
        log_event_def i1 i2)
  have q: "pools (sys_world (run 0 (init 0 ?F Unlimited) [Acquire, Acquire, Release 0 0])) 0 =
      Some \<lparr>m_limit = Unlimited, m_allocated = 2, m_factory = ?F, factory_calls = 2,
            m_poolContainer = [?h]\<rparr>"
    by (simp add: run_def init_def create_def acquire_def invoke_factory_def Unlimited_def
        unique_ptr_dtor_def deleter_call.simps lock_def add_def ReturnToPoolDeleter_ctor_def
        log_event_def i1 i2)
  from reachable_counts_ordered [OF p S] reachable_counts_ordered [OF q U] p q S
  show ?thesis
    by (simp add: limit_def pooled_def allocated_def Unlimited_def SIZE_MAX_def)
qed




text \<open>
  C5. Pool \<open>i\<close> is alive; the full handles \<open>uA\<close> and \<open>uB\<close>, holding \<open>a\<close> and \<open>b\<close> and attached
  to pool \<open>i\<close>, are destroyed in this order, both pushes succeeding. Then the stack has
  grown by two, the next \<^verbatim>\<open>acquire\<close> returns \<open>b\<close>, the one after it returns \<open>a\<close>, and the pool
  is then the one before the releases: both calls popped the stack, the factory was not
  invoked and \<^verbatim>\<open>allocated()\<close> did not move. In general, whenever the stack is not empty,
  \<^verbatim>\<open>acquire\<close> returns its top entry and changes nothing but the stack.
\<close>

theorem lifo_reuse:
  assumes pool: "pools w i = Some pool"
    and A: "ptr uA = Some a" "ptrToOwnerPool (get_deleter uA) = Some i"
    and B: "ptr uB = Some b" "ptrToOwnerPool (get_deleter uB) = Some i"
  shows "(\<exists>p2. pools (unique_ptr_dtor 0 uB (unique_ptr_dtor 0 uA w)) i = Some p2 \<and>
           pooled p2 = pooled pool + 2 \<and>
           fst (acquire i p2) =
             Inr \<lparr>ptr = Some b, get_deleter = ReturnToPoolDeleter_ctor (Some i)\<rparr> \<and>
           fst (acquire i (snd (acquire i p2))) =
             Inr \<lparr>ptr = Some a, get_deleter = ReturnToPoolDeleter_ctor (Some i)\<rparr> \<and>
           snd (acquire i (snd (acquire i p2))) = pool) \<and>
         (\<forall>p u rest. m_poolContainer p = u # rest \<longrightarrow>
            acquire i p = (Inr u, p\<lparr>m_poolContainer := rest\<rparr>))"
proof -
  let ?hA = "\<lparr>ptr = Some a, get_deleter = ReturnToPoolDeleter_ctor (Some i)\<rparr>"
  let ?hB = "\<lparr>ptr = Some b, get_deleter = ReturnToPoolDeleter_ctor (Some i)\<rparr>"
  let ?p1 = "pool\<lparr>m_poolContainer := ?hA # m_poolContainer pool\<rparr>"
  let ?p2 = "pool\<lparr>m_poolContainer := ?hB # ?hA # m_poolContainer pool\<rparr>"
  let ?w1 = "unique_ptr_dtor 0 uA w"
  have w1: "pools ?w1 i = Some ?p1"
    by (simp add: unique_ptr_dtor_push [OF A pool])
  have w2: "pools (unique_ptr_dtor 0 uB ?w1) i = Some ?p2"
    by (simp add: unique_ptr_dtor_push [OF B w1])
  have a1: "acquire i ?p2 = (Inr ?hB, ?p1)"
    by (simp add: acquire_def)
  have a2: "acquire i ?p1 = (Inr ?hA, pool)"
    by (simp add: acquire_def)
  show ?thesis
    using w2 a1 a2 by (simp add: pooled_def acquire_pop)
qed

text \<open>
  C5 on a fresh unlimited pool, with the instances 7 and 8.
\<close>

theorem lifo_reuse_witness:
  "(\<exists>p2. pools (unique_ptr_dtor 0 \<lparr>ptr = Some 8, get_deleter = ReturnToPoolDeleter_ctor (Some 0)\<rparr>
             (unique_ptr_dtor 0 \<lparr>ptr = Some 7, get_deleter = ReturnToPoolDeleter_ctor (Some 0)\<rparr>
                \<lparr>pools = (\<lambda>_. None)(0 \<mapsto> create (\<lambda>k. Returns (Some k)) Unlimited),
                 trace = []\<rparr>)) 0 = Some p2 \<and>
          pooled p2 = 2 \<and>
          fst (acquire 0 p2) =
            Inr \<lparr>ptr = Some 8, get_deleter = ReturnToPoolDeleter_ctor (Some 0)\<rparr> \<and>
          fst (acquire 0 (snd (acquire 0 p2))) =
            Inr \<lparr>ptr = Some 7, get_deleter = ReturnToPoolDeleter_ctor (Some 0)\<rparr> \<and>
          snd (acquire 0 (snd (acquire 0 p2))) = create (\<lambda>k. Returns (Some k)) Unlimited)"
  using lifo_reuse [of "\<lparr>pools = (\<lambda>_. None)(0 \<mapsto> create (\<lambda>k. Returns (Some k)) Unlimited),
                 trace = []\<rparr>" 0 "create (\<lambda>k. Returns (Some k)) Unlimited"
      "\<lparr>ptr = Some 7, get_deleter = ReturnToPoolDeleter_ctor (Some 0)\<rparr>" 7
      "\<lparr>ptr = Some 8, get_deleter = ReturnToPoolDeleter_ctor (Some 0)\<rparr>" 8,
      THEN conjunct1]
    pooled_create [of "\<lambda>k. Returns (Some k)" Unlimited]
  by (simp add: ReturnToPoolDeleter_ctor_def numeral_2_eq_2)

text \<open>
  C6. A pool with limit \<open>N\<close> (a value of \<^verbatim>\<open>size_t\<close>, so at most \<open>SIZE_MAX\<close>) and a factory that constructs an instance on each of its first
  \<open>N\<close> invocations; the client acquires \<open>N\<close> handles and releases them all, in any order, every
  push succeeding. Then
  \<^verbatim>\<open>pooled()\<close> and \<^verbatim>\<open>allocated()\<close> are \<open>N\<close>, after \<open>N\<close> invocations of the factory. For every \<open>k < N\<close>,
  after \<open>k\<close> further calls of \<^verbatim>\<open>acquire\<close> \<^verbatim>\<open>pooled()\<close> is \<open>N - k\<close>, and the next call returns a
  handle that is not empty, leaves the number of invocations of the factory and
  \<^verbatim>\<open>allocated()\<close> at \<open>N\<close>, and takes \<^verbatim>\<open>pooled()\<close> down by one.
\<close>

theorem recycle_then_reacquire:
  assumes c: "constructs f N" and v: "valid_releases N ks" and S: "N \<le> SIZE_MAX"
  shows "(\<exists>p. pools (sys_world (run i (init i f N) (replicate N Acquire @ releases ks))) i =
                Some p \<and>
              limit p = N \<and> pooled p = N \<and> allocated p = N \<and> factory_calls p = N) \<and>
         (\<forall>k<N. \<exists>p. pools (sys_world (run i (run i (init i f N)
                  (replicate N Acquire @ releases ks)) (replicate k Acquire))) i = Some p \<and>
              pooled p = N - k \<and> allocated p = N \<and> factory_calls p = N \<and>
              (\<exists>u. fst (acquire i p) = Inr u \<and> ptr u \<noteq> None) \<and>
              factory_calls (snd (acquire i p)) = N \<and> allocated (snd (acquire i p)) = N \<and>
              pooled (snd (acquire i p)) = N - k - 1 \<and>
              pools (sys_world (run i (run i (init i f N)
                  (replicate N Acquire @ releases ks)) (replicate (k + 1) Acquire))) i =
                Some (snd (acquire i p)))"
proof -
  have l: "N = Unlimited \<or> N \<le> N" by simp
  from S have m: "N mod Suc SIZE_MAX = N" by simp
  from run_acquire_release [OF c l v, of i, unfolded m]
  obtain st where len: "length st = N" and att: "list_all (attached i) st"
    and r: "run i (init i f N) (replicate N Acquire @ releases ks) =
     \<lparr>sys_world =
        \<lparr>pools = (\<lambda>_. None)(i \<mapsto>
           \<lparr>m_limit = N, m_allocated = N, m_factory = f, factory_calls = N,
            m_poolContainer = st\<rparr>),
         trace = map (AddCalled i) (List.map_filter ptr (rev st))\<rparr>,
      held = []\<rparr>"
    by blast
  show ?thesis
  proof (intro conjI allI impI)
    show "\<exists>p. pools (sys_world (run i (init i f N) (replicate N Acquire @ releases ks))) i =
                Some p \<and>
              limit p = N \<and> pooled p = N \<and> allocated p = N \<and> factory_calls p = N"
      unfolding r using len by (simp add: limit_def pooled_def allocated_def)
  next
    fix k assume k: "k < N"
    from k len have k0: "k \<le> length st" and k1: "k + 1 \<le> length st" by simp_all
    from k len have "drop k st \<noteq> []" by simp
    then obtain u rest where d: "drop k st = u # rest" by (cases "drop k st") auto
    then have d1: "drop (k + 1) st = rest"
      by (metis drop_drop drop_Suc_Cons drop_0 add.commute plus_1_eq_Suc)
    have "u \<in> set (drop k st)" using d by simp
    then have "u \<in> set st" by (auto dest: in_set_dropD)
    with att have u: "ptr u \<noteq> None"
      by (auto simp: list_all_iff attached_def)
    from d len have len0: "Suc (length rest) = N - k"
      by (metis length_drop length_Cons)
    then have len1: "length rest = N - k - 1" by simp
    show "\<exists>p. pools (sys_world (run i (run i (init i f N)
                  (replicate N Acquire @ releases ks)) (replicate k Acquire))) i = Some p \<and>
              pooled p = N - k \<and> allocated p = N \<and> factory_calls p = N \<and>
              (\<exists>u. fst (acquire i p) = Inr u \<and> ptr u \<noteq> None) \<and>
              factory_calls (snd (acquire i p)) = N \<and> allocated (snd (acquire i p)) = N \<and>
              pooled (snd (acquire i p)) = N - k - 1 \<and>
              pools (sys_world (run i (run i (init i f N)
                  (replicate N Acquire @ releases ks)) (replicate (k + 1) Acquire))) i =
                Some (snd (acquire i p))"
      unfolding r run_pops_from [OF k0] run_pops_from [OF k1] d d1
      using u len0 len1 by (simp add: acquire_def pooled_def allocated_def)
  qed
qed

text \<open>
  C6 at \<open>N = 3\<close>, the handles released in the order second, third, first: the state after the
  releases, and the second of the three re-acquisitions.
\<close>

theorem recycle_then_reacquire_witness:
  "constructs (\<lambda>k. Returns (Some k)) 3 \<and> valid_releases 3 [1, 1, 0] \<and> (3::nat) \<le> SIZE_MAX \<and>
   (\<exists>p. pools (sys_world (run 0 (init 0 (\<lambda>k. Returns (Some k)) 3)
            (replicate 3 Acquire @ releases [1, 1, 0]))) 0 = Some p \<and>
        limit p = 3 \<and> pooled p = 3 \<and> allocated p = 3 \<and> factory_calls p = 3) \<and>
   (\<exists>p. pools (sys_world (run 0 (run 0 (init 0 (\<lambda>k. Returns (Some k)) 3)
            (replicate 3 Acquire @ releases [1, 1, 0])) (replicate 1 Acquire))) 0 = Some p \<and>
        pooled p = 3 - 1 \<and> allocated p = 3 \<and> factory_calls p = 3 \<and>
        (\<exists>u. fst (acquire 0 p) = Inr u \<and> ptr u \<noteq> None) \<and>
        factory_calls (snd (acquire 0 p)) = 3 \<and> allocated (snd (acquire 0 p)) = 3 \<and>
        pooled (snd (acquire 0 p)) = 3 - 1 - 1)"
proof -
  have h: "constructs (\<lambda>k. Returns (Some k)) 3" by code_simp
  have v: "valid_releases 3 [1, 1, 0]" by simp
  have k: "(1::nat) < 3" by simp
  have S: "(3::nat) \<le> SIZE_MAX" by (simp add: SIZE_MAX_def)
  note T = recycle_then_reacquire [OF h v S, of 0]
  from T have A: "\<exists>p. pools (sys_world (run 0 (init 0 (\<lambda>k. Returns (Some k)) 3)
            (replicate 3 Acquire @ releases [1, 1, 0]))) 0 = Some p \<and>
        limit p = 3 \<and> pooled p = 3 \<and> allocated p = 3 \<and> factory_calls p = 3"
    by blast
  from T k have B: "\<exists>p. pools (sys_world (run 0 (run 0 (init 0 (\<lambda>k. Returns (Some k)) 3)
            (replicate 3 Acquire @ releases [1, 1, 0])) (replicate 1 Acquire))) 0 = Some p \<and>
        pooled p = 3 - 1 \<and> allocated p = 3 \<and> factory_calls p = 3 \<and>
        (\<exists>u. fst (acquire 0 p) = Inr u \<and> ptr u \<noteq> None) \<and>
        factory_calls (snd (acquire 0 p)) = 3 \<and> allocated (snd (acquire 0 p)) = 3 \<and>
        pooled (snd (acquire 0 p)) = 3 - 1 - 1"
    by blast
  from h v S A B show ?thesis by (intro conjI)
qed

text \<open>
  C7. The destruction of a full handle holding \<open>a\<close> whose deleter refers to pool \<open>i\<close>. When
  pool \<open>i\<close> is alive and the push does not throw, the pool receives on top of its stack a
  new handle around \<open>a\<close> whose deleter refers to pool \<open>i\<close>; \<^verbatim>\<open>pooled()\<close> grows by one,
  \<^verbatim>\<open>allocated()\<close> stays, and the only event is the call of \<^verbatim>\<open>add\<close>: \<open>a\<close> is not deleted. When
  pool \<open>i\<close> is gone, the only effect on the world is the deletion of \<open>a\<close>: no pool changes.
\<close>

theorem dispose_full_handle:
  assumes u: "ptr u = Some a" and d: "ptrToOwnerPool (get_deleter u) = Some i"
  shows "(pools w i = Some pool \<longrightarrow>
            pools (unique_ptr_dtor 0 u w) =
              (pools w)(i \<mapsto> pool\<lparr>m_poolContainer :=
                 \<lparr>ptr = Some a, get_deleter = ReturnToPoolDeleter_ctor (Some i)\<rparr> #
                 m_poolContainer pool\<rparr>) \<and>
            (\<exists>pool'. pools (unique_ptr_dtor 0 u w) i = Some pool' \<and>
               pooled pool' = pooled pool + 1 \<and> allocated pool' = allocated pool) \<and>
            trace (unique_ptr_dtor 0 u w) = trace w @ [AddCalled i a]) \<and>
         (pools w i = None \<longrightarrow>
            unique_ptr_dtor n u w = w\<lparr>trace := trace w @ [Deleted a]\<rparr>)"
proof (intro conjI impI)
  assume p: "pools w i = Some pool"
  note e = unique_ptr_dtor_push [OF u d p]
  show "pools (unique_ptr_dtor 0 u w) =
          (pools w)(i \<mapsto> pool\<lparr>m_poolContainer :=
             \<lparr>ptr = Some a, get_deleter = ReturnToPoolDeleter_ctor (Some i)\<rparr> #
             m_poolContainer pool\<rparr>)"
    by (simp add: e)
  show "\<exists>pool'. pools (unique_ptr_dtor 0 u w) i = Some pool' \<and>
          pooled pool' = pooled pool + 1 \<and> allocated pool' = allocated pool"
    by (simp add: e pooled_def allocated_def)
  show "trace (unique_ptr_dtor 0 u w) = trace w @ [AddCalled i a]"
    by (simp add: e)
next
  assume "pools w i = None"
  with u d show "unique_ptr_dtor n u w = w\<lparr>trace := trace w @ [Deleted a]\<rparr>"
    by (simp add: unique_ptr_dtor_def deleter_call_expired delete_obj_def log_event_def)
qed

text \<open>
  C7 for a handle around the instance 7: once with its pool alive, once with no pool left.
\<close>

theorem dispose_full_handle_witness:
  "(\<exists>pool'. pools (unique_ptr_dtor 0
        \<lparr>ptr = Some 7, get_deleter = ReturnToPoolDeleter_ctor (Some 0)\<rparr>
        \<lparr>pools = (\<lambda>_. None)(0 \<mapsto> create (\<lambda>k. Returns (Some k)) Unlimited), trace = []\<rparr>) 0 =
          Some pool' \<and>
        pooled pool' = pooled (create (\<lambda>k. Returns (Some k)) Unlimited) + 1) \<and>
   trace (unique_ptr_dtor 0
        \<lparr>ptr = Some 7, get_deleter = ReturnToPoolDeleter_ctor (Some 0)\<rparr>
        \<lparr>pools = (\<lambda>_. None)(0 \<mapsto> create (\<lambda>k. Returns (Some k)) Unlimited), trace = []\<rparr>) =
     [AddCalled 0 7] \<and>
   unique_ptr_dtor 0 \<lparr>ptr = Some 7, get_deleter = ReturnToPoolDeleter_ctor (Some 0)\<rparr>
        \<lparr>pools = (\<lambda>_. None), trace = []\<rparr> =
     \<lparr>pools = (\<lambda>_. None), trace = [Deleted 7]\<rparr>"
proof -
  let ?u = "\<lparr>ptr = Some 7, get_deleter = ReturnToPoolDeleter_ctor (Some 0)\<rparr>"
  let ?p = "create (\<lambda>k. Returns (Some k)) Unlimited"
  let ?w = "\<lparr>pools = (\<lambda>_. None)(0 \<mapsto> ?p), trace = []\<rparr>"
  let ?v = "\<lparr>pools = (\<lambda>_. None), trace = []\<rparr>"
  have u: "ptr ?u = Some 7" by simp
  have d: "ptrToOwnerPool (get_deleter ?u) = Some 0"
    by (simp add: ReturnToPoolDeleter_ctor_def)
  have live: "pools ?w 0 = Some ?p" by simp
  have dead: "pools ?v 0 = None" by simp
  from dispose_full_handle [OF u d, of ?w ?p 0] live
  have A: "(\<exists>pool'. pools (unique_ptr_dtor 0 ?u ?w) 0 = Some pool' \<and>
               pooled pool' = pooled ?p + 1)"
    and B: "trace (unique_ptr_dtor 0 ?u ?w) = trace ?w @ [AddCalled 0 7]"
    by blast+
  from dispose_full_handle [OF u d, of ?v ?p 0] dead
  have C: "unique_ptr_dtor 0 ?u ?v = ?v\<lparr>trace := trace ?v @ [Deleted 7]\<rparr>"
    by blast
  from A B C show ?thesis by simp
qed

text \<open>
  C8. The claim: when the push of the return throws, the object is deleted instead of
  recycled, and nothing reaches the caller. With one throwing push, the client acquires
  the instance 7 from an unlimited pool and releases it: \<^verbatim>\<open>add\<close> is called twice (the second
  call from the destructor of the argument of the first, while the exception unwinds),
  the second push puts 7 on the stack, and then the handler of the first call lets
  \<^verbatim>\<open>delete\<close> run on 7. No exception leaves the disposal, but the instance is both deleted
  and on the recycle stack.
\<close>

theorem dispose_bad_alloc_recycles_and_deletes:
  "trace (sys_world (run 0 (init 0 (\<lambda>k. Returns (Some 7)) Unlimited) [Acquire, Release 0 1])) =
     [AddCalled 0 7, AddCalled 0 7, Deleted 7] \<and>
   map_option m_poolContainer
     (pools (sys_world (run 0 (init 0 (\<lambda>k. Returns (Some 7)) Unlimited) [Acquire, Release 0 1])) 0) =
     Some [\<lparr>ptr = Some 7, get_deleter = ReturnToPoolDeleter_ctor (Some 0)\<rparr>]"
  by (simp add: run_def init_def create_def acquire_def invoke_factory_def Unlimited_def
      unique_ptr_dtor_def
      deleter_call.simps lock_def add_def ReturnToPoolDeleter_ctor_def log_event_def
      delete_obj_def)

text \<open>
  C9. The destructor of the pool, on any stack and in any world (also one where a weak
  pointer to the pool would still resolve), deletes the object of every entry through the
  entry's detached deleter and does nothing else: the effect on the world is one
  \<open>Deleted\<close> event for each object on the stack, from the top down; no call of \<^verbatim>\<open>add\<close>, no
  change of any pool. In particular, after \<open>K\<close> acquisitions on a fresh pool that allows
  them, with a factory that constructs \<open>K\<close> instances, and the release of all \<open>K\<close> handles in
  any order, the stack holds \<open>K\<close> objects, and dropping the pool ends it and adds to the trace exactly the
  \<open>K\<close> deletions of these objects.
\<close>

theorem pool_destructor_detaches:
  assumes c: "constructs f K" and l: "lim = Unlimited \<or> K \<le> lim"
    and v: "valid_releases K ks"
  shows "(\<forall>w st. dtor_loop n st w =
            w\<lparr>trace := trace w @ map Deleted (List.map_filter ptr st)\<rparr>) \<and>
         (\<exists>p. pools (sys_world (run i (init i f lim) (replicate K Acquire @ releases ks))) i =
              Some p \<and>
            pooled p = K \<and> allocated p = K mod (SIZE_MAX + 1) \<and>
            length (List.map_filter ptr (m_poolContainer p)) = K \<and>
            pools (sys_world (step i (run i (init i f lim)
                  (replicate K Acquire @ releases ks)) (Reset n))) i = None \<and>
            trace (sys_world (step i (run i (init i f lim)
                  (replicate K Acquire @ releases ks)) (Reset n))) =
              trace (sys_world (run i (init i f lim) (replicate K Acquire @ releases ks))) @
              map Deleted (List.map_filter ptr (m_poolContainer p)))"
proof (intro conjI allI)
  fix w st
  show "dtor_loop n st w = w\<lparr>trace := trace w @ map Deleted (List.map_filter ptr st)\<rparr>"
    by (rule dtor_loop_eq)
next
  from run_acquire_release [OF c l v, of i]
  obtain st where len: "length st = K" and att: "list_all (attached i) st"
    and r: "run i (init i f lim) (replicate K Acquire @ releases ks) =
     \<lparr>sys_world =
        \<lparr>pools = (\<lambda>_. None)(i \<mapsto>
           \<lparr>m_limit = lim, m_allocated = K mod Suc SIZE_MAX, m_factory = f, factory_calls = K,
            m_poolContainer = st\<rparr>),
         trace = map (AddCalled i) (List.map_filter ptr (rev st))\<rparr>,
      held = []\<rparr>"
    by blast
  from att have "list_all (\<lambda>u. ptr u \<noteq> None) st"
    by (auto simp: list_all_iff attached_def)
  then have "length (List.map_filter ptr st) = K"
    using len by (simp add: map_filter_all_Some)
  then show "\<exists>p. pools (sys_world (run i (init i f lim) (replicate K Acquire @ releases ks))) i =
              Some p \<and>
            pooled p = K \<and> allocated p = K mod (SIZE_MAX + 1) \<and>
            length (List.map_filter ptr (m_poolContainer p)) = K \<and>
            pools (sys_world (step i (run i (init i f lim)
                  (replicate K Acquire @ releases ks)) (Reset n))) i = None \<and>
            trace (sys_world (step i (run i (init i f lim)
                  (replicate K Acquire @ releases ks)) (Reset n))) =
              trace (sys_world (run i (init i f lim) (replicate K Acquire @ releases ks))) @
              map Deleted (List.map_filter ptr (m_poolContainer p))"
    unfolding r using len
    by (simp add: destroy_def dtor_loop_eq pooled_def allocated_def)
qed

text \<open>
  C9 at \<open>K = 2\<close> on an unlimited pool: two calls of \<^verbatim>\<open>add\<close> for the releases, then the two
  deletions by the destructor, the top of the stack first.
\<close>

theorem pool_destructor_detaches_witness:
  "constructs (\<lambda>k. Returns (Some k)) 2 \<and> (Unlimited = Unlimited \<or> (2::nat) \<le> Unlimited) \<and>
   valid_releases 2 [0, 0] \<and>
   (\<exists>p. pools (sys_world (run 0 (init 0 (\<lambda>k. Returns (Some k)) Unlimited)
            (replicate 2 Acquire @ releases [0, 0]))) 0 = Some p \<and>
        pooled p = 2 \<and> length (List.map_filter ptr (m_poolContainer p)) = 2 \<and>
        pools (sys_world (step 0 (run 0 (init 0 (\<lambda>k. Returns (Some k)) Unlimited)
            (replicate 2 Acquire @ releases [0, 0])) (Reset 0))) 0 = None \<and>
        trace (sys_world (step 0 (run 0 (init 0 (\<lambda>k. Returns (Some k)) Unlimited)
            (replicate 2 Acquire @ releases [0, 0])) (Reset 0))) =
          trace (sys_world (run 0 (init 0 (\<lambda>k. Returns (Some k)) Unlimited)
            (replicate 2 Acquire @ releases [0, 0]))) @
          map Deleted (List.map_filter ptr (m_poolContainer p))) \<and>
   trace (sys_world (step 0 (run 0 (init 0 (\<lambda>k. Returns (Some k)) Unlimited)
            (replicate 2 Acquire @ releases [0, 0])) (Reset 0))) =
     [AddCalled 0 0, AddCalled 0 1, Deleted 1, Deleted 0]"
proof -
  have h: "constructs (\<lambda>k. Returns (Some k)) 2" by code_simp
  have l: "Unlimited = Unlimited \<or> (2::nat) \<le> Unlimited" by simp
  have v: "valid_releases 2 [0, 0]" by simp
  from pool_destructor_detaches [OF h l v, of 0 0]
  have A: "\<exists>p. pools (sys_world (run 0 (init 0 (\<lambda>k. Returns (Some k)) Unlimited)
            (replicate 2 Acquire @ releases [0, 0]))) 0 = Some p \<and>
        pooled p = 2 \<and> length (List.map_filter ptr (m_poolContainer p)) = 2 \<and>
        pools (sys_world (step 0 (run 0 (init 0 (\<lambda>k. Returns (Some k)) Unlimited)
            (replicate 2 Acquire @ releases [0, 0])) (Reset 0))) 0 = None \<and>
        trace (sys_world (step 0 (run 0 (init 0 (\<lambda>k. Returns (Some k)) Unlimited)
            (replicate 2 Acquire @ releases [0, 0])) (Reset 0))) =
          trace (sys_world (run 0 (init 0 (\<lambda>k. Returns (Some k)) Unlimited)
            (replicate 2 Acquire @ releases [0, 0]))) @
          map Deleted (List.map_filter ptr (m_poolContainer p))"
    by blast
  have B: "trace (sys_world (step 0 (run 0 (init 0 (\<lambda>k. Returns (Some k)) Unlimited)
            (replicate 2 Acquire @ releases [0, 0])) (Reset 0))) =
     [AddCalled 0 0, AddCalled 0 1, Deleted 1, Deleted 0]"
    by (simp add: eval_nat_numeral run_def init_def create_def acquire_def invoke_factory_def
        Unlimited_def
        unique_ptr_dtor_def deleter_call.simps lock_def add_def ReturnToPoolDeleter_ctor_def
        log_event_def delete_obj_def destroy_def detachFromPool_def releases_def)
  from h l v A B show ?thesis by (intro conjI)
qed

text \<open>
  C10. A deleter that was detached, and a deleter constructed with no owner, delete the
  object they are called on and do nothing else, in any world (so also when the pool that
  made the object is alive) and whatever the allocator would do: the new world is the old
  one with one more \<open>Deleted\<close> event, and its pools are the old ones.
\<close>

theorem detached_deleter_deletes:
  "deleter_call n (detachFromPool d) a w = w\<lparr>trace := trace w @ [Deleted a]\<rparr> \<and>
   deleter_call n (ReturnToPoolDeleter_ctor None) a w = w\<lparr>trace := trace w @ [Deleted a]\<rparr> \<and>
   pools (deleter_call n (detachFromPool d) a w) = pools w \<and>
   pools (deleter_call n (ReturnToPoolDeleter_ctor None) a w) = pools w"
  by (simp add: deleter_call_detached detachFromPool_def ReturnToPoolDeleter_ctor_def
      delete_obj_def log_event_def)

end
